theory Spec2Isabelle
  imports Main "HOL-Library.Word" "HOL-Library.Product_Lexorder" "HOL-Library.Signed_Division"
    "HOL-Library.Code_Target_Nat"
begin

unbundle bit_operations_syntax

section \<open>Log lines and log files\<close>

text \<open>
  The log index and view engine of lnav: \<^verbatim>\<open>logfile_sub_source.cc\<close> (the merged
  index, the filtered index, bookmarks, the location history, timestamp styles) and
  \<^verbatim>\<open>textview_curses.cc\<close> (the per-file filter state). Reads that C++ leaves
  undefined (a vector read out of range, a null file, a failed \<^verbatim>\<open>require\<close>) are
  values of the type \<open>error\<close>; every operation that can perform one returns
  \<open>error + 'a\<close>.
\<close>

datatype error = OutOfRange | NullFile | RequireFailed

definition nth_opt :: "'a list \<Rightarrow> nat \<Rightarrow> 'a option" where
  "nth_opt xs i = (if i < length xs then Some (xs ! i) else None)"

datatype log_level_t =
    LEVEL_UNKNOWN | LEVEL_TRACE | LEVEL_DEBUG | LEVEL_INFO | LEVEL_STATS
  | LEVEL_NOTICE | LEVEL_WARNING | LEVEL_ERROR | LEVEL_CRITICAL | LEVEL_FATAL

text \<open>
  Modelled from the spec: the class \<^verbatim>\<open>logline\<close> is declared in a header that is
  not part of the sources. Section 6 of the specification lists what an iterator element
  exposes: \<^verbatim>\<open>get_time()\<close> (epoch seconds), \<^verbatim>\<open>get_timeval()\<close>, the level,
  \<^verbatim>\<open>is_continued()\<close>, \<^verbatim>\<open>is_time_skewed()\<close> and \<^verbatim>\<open>set_mark\<close>.
  The timestamp is the pair of seconds and milliseconds, ordered lexicographically.
\<close>

record logline =
  ll_time :: int
  ll_millis :: nat
  ll_level :: log_level_t
  ll_continued :: bool
  ll_time_skewed :: bool
  ll_mark :: bool

type_synonym timeval = "int \<times> nat"

definition get_timeval :: "logline \<Rightarrow> timeval" where
  "get_timeval ll = (ll_time ll, ll_millis ll)"

text \<open>
  Modelled from the spec: \<^verbatim>\<open>logline::operator<\<close>, the ordering key of section 3,
  "timestamp(a) < timestamp(b)".
\<close>

definition logline_less :: "logline \<Rightarrow> timeval \<Rightarrow> bool" where
  "logline_less ll tv = (get_timeval ll < tv)"

text \<open>
  A \<^verbatim>\<open>logfile\<close> as the index engine sees it (the LogFile capability of section 6):
  its lines from \<^verbatim>\<open>begin()\<close> to \<^verbatim>\<open>end()\<close>, its names, its longest line and
  whether its clock is adjusted.
\<close>

record logfile =
  lf_filename :: string
  lf_unique_path :: string
  lf_longest_line :: nat
  lf_lines :: "logline list"
  lf_time_adjusted :: bool

section \<open>The per-file filter state (textview\_curses.cc)\<close>

text \<open>
  \<^verbatim>\<open>logfile_filter_state\<close>: one 32-bit mask per line and, for each of the 32 filter
  slots, the counters and the accumulator of the current message. The arrays indexed by
  the filter's \<^verbatim>\<open>lf_index\<close> are functions of that index. The state's pointer
  \<^verbatim>\<open>tfs_logfile\<close> is the \<open>logfile\<close> argument of the operations.
\<close>

record logfile_filter_state =
  tfs_mask :: "32 word list"
  tfs_filter_count :: "nat \<Rightarrow> nat"
  tfs_filter_hits :: "nat \<Rightarrow> nat"
  tfs_message_matched :: "nat \<Rightarrow> bool"
  tfs_lines_for_message :: "nat \<Rightarrow> nat"
  tfs_last_message_matched :: "nat \<Rightarrow> bool"
  tfs_last_lines_for_message :: "nat \<Rightarrow> nat"

text \<open>
  A \<^verbatim>\<open>text_filter\<close>: its slot \<^verbatim>\<open>lf_index\<close> and its virtual method
  \<^verbatim>\<open>matches(logfile, logline, line)\<close>.
\<close>

record text_filter =
  lf_index :: nat
  matches :: "logfile \<Rightarrow> logline \<Rightarrow> string \<Rightarrow> bool"

text \<open>
  The loop of \<^verbatim>\<open>text_filter::end_of_message\<close>: its bound
  \<^verbatim>\<open>tfs_lines_for_message[lf_index]\<close> does not change while it runs, so it is the
  recursion argument. Each round checks the \<^verbatim>\<open>require\<close>, ORs the bit
  \<open>msk\<close> (the source's \<^verbatim>\<open>mask\<close>) into the mask of line
  \<^verbatim>\<open>tfs_filter_count[lf_index]\<close> and advances the counters.
\<close>

fun end_of_message_loop ::
  "text_filter \<Rightarrow> logfile \<Rightarrow> 32 word \<Rightarrow> nat \<Rightarrow> logfile_filter_state \<Rightarrow> error + logfile_filter_state"
where
  "end_of_message_loop f lf msk 0 lfs = Inr lfs"
| "end_of_message_loop f lf msk (Suc n) lfs =
     (let p = lf_index f; line_number = tfs_filter_count lfs p in
      if \<not> tfs_filter_count lfs p \<le> length (lf_lines lf) then Inl RequireFailed
      else if \<not> line_number < length (tfs_mask lfs) then Inl OutOfRange
      else end_of_message_loop f lf msk n
             (lfs\<lparr>tfs_mask := (tfs_mask lfs)[line_number := tfs_mask lfs ! line_number OR msk],
                  tfs_filter_count := (tfs_filter_count lfs)(p := tfs_filter_count lfs p + 1),
                  tfs_filter_hits :=
                    (if tfs_message_matched lfs p
                     then (tfs_filter_hits lfs)(p := tfs_filter_hits lfs p + 1)
                     else tfs_filter_hits lfs)\<rparr>))"

definition end_of_message ::
  "text_filter \<Rightarrow> logfile \<Rightarrow> logfile_filter_state \<Rightarrow> error + logfile_filter_state"
where
  "end_of_message f lf lfs =
     (let p = lf_index f;
          msk = push_bit p (if tfs_message_matched lfs p then 1 else 0 :: 32 word)
      in case end_of_message_loop f lf msk (tfs_lines_for_message lfs p) lfs of
           Inl e \<Rightarrow> Inl e
         | Inr lfs' \<Rightarrow>
             Inr (lfs'\<lparr>tfs_last_message_matched :=
                          (tfs_last_message_matched lfs')(p := tfs_message_matched lfs' p),
                       tfs_last_lines_for_message :=
                          (tfs_last_lines_for_message lfs')(p := tfs_lines_for_message lfs' p),
                       tfs_message_matched := (tfs_message_matched lfs')(p := False),
                       tfs_lines_for_message := (tfs_lines_for_message lfs')(p := 0)\<rparr>))"

definition add_line ::
  "text_filter \<Rightarrow> logfile \<Rightarrow> logfile_filter_state \<Rightarrow> logline \<Rightarrow> string
    \<Rightarrow> error + logfile_filter_state"
where
  "add_line f lf lfs ll line =
     (let p = lf_index f;
          match_state = matches f lf ll line
      in case (if \<not> ll_continued ll then end_of_message f lf lfs else Inr lfs) of
           Inl e \<Rightarrow> Inl e
         | Inr lfs' \<Rightarrow>
             Inr (lfs'\<lparr>tfs_message_matched :=
                          (tfs_message_matched lfs')(p := tfs_message_matched lfs' p \<or> match_state),
                       tfs_lines_for_message :=
                          (tfs_lines_for_message lfs')(p := tfs_lines_for_message lfs' p + 1)\<rparr>))"

text \<open>
  The file's lines reach the filter one at a time, in file order: \<open>add_lines\<close> is
  \<open>add_line\<close> over a run of lines, each with its text, stopping at the first error.
\<close>

fun add_lines ::
  "text_filter \<Rightarrow> logfile \<Rightarrow> logfile_filter_state \<Rightarrow> (logline \<times> string) list
    \<Rightarrow> error + logfile_filter_state"
where
  "add_lines f lf lfs [] = Inr lfs"
| "add_lines f lf lfs ((ll, line) # rest) =
     (case add_line f lf lfs ll line of
        Inl e \<Rightarrow> Inl e
      | Inr lfs' \<Rightarrow> add_lines f lf lfs' rest)"

text \<open>
  Modelled from the spec: \<^verbatim>\<open>logfile_filter_state::excluded\<close> is declared in a
  header that is not part of the sources. Section 4.B: a line is excluded iff
  \<^verbatim>\<open>(mask[line_number] & filter_out_mask) != 0\<close> or (if any IN filters are enabled)
  \<^verbatim>\<open>(mask[line_number] & filter_in_mask) = 0\<close>. A line without a mask is a read
  out of range.
\<close>

definition excluded ::
  "logfile_filter_state \<Rightarrow> 32 word \<Rightarrow> 32 word \<Rightarrow> nat \<Rightarrow> error + bool"
where
  "excluded lfs filter_in_mask filter_out_mask line_number =
     (case nth_opt (tfs_mask lfs) line_number of
        None \<Rightarrow> Inl OutOfRange
      | Some m \<Rightarrow>
          Inr (m AND filter_out_mask \<noteq> 0 \<or> (filter_in_mask \<noteq> 0 \<and> m AND filter_in_mask = 0)))"

section \<open>The merged index (logfile\_sub\_source.cc)\<close>

type_synonym content_line_t = nat

text \<open>
  Modelled from the spec: the constant \<^verbatim>\<open>MAX_LINES_PER_FILE\<close> is declared in a
  header that is not part of the sources. Section 3: a ContentLine encodes
  \<^verbatim>\<open>slot * MAX_LINES_PER_FILE + line_number\<close>, and \<open>2 ^ 24\<close> suffices.
\<close>

definition MAX_LINES_PER_FILE :: nat where
  "MAX_LINES_PER_FILE = 2 ^ 24"

datatype logfile_rebuild_result_t = RR_INVALID | RR_NO_NEW_LINES | RR_NEW_LINES | RR_NEW_ORDER

datatype rebuild_result = rr_no_change | rr_appended_lines | rr_full_rebuild

datatype bookmark_type_t = BM_ERRORS | BM_WARNINGS | BM_FILES | BM_USER | BM_SEARCH | BM_META

text \<open>
  \<^verbatim>\<open>logfile_data\<close>: the slot of an attached file. \<^verbatim>\<open>get_file()\<close> is
  \<open>ld_file\<close>, \<open>None\<close> once the file is gone.
\<close>

record logfile_data =
  ld_file_index :: nat
  ld_file :: "logfile option"
  ld_lines_indexed :: nat
  ld_filter_state :: logfile_filter_state

text \<open>
  The fields of \<^verbatim>\<open>logfile_sub_source\<close> that the index engine reads and writes.
  \<open>lss_index\<close> is the big array of content lines, \<open>lss_filtered_index\<close> the vector of
  \<^verbatim>\<open>uint32_t\<close> positions into it. The filter stack is present through what
  \<^verbatim>\<open>get_enabled_mask\<close> returns (\<open>lss_filter_in_mask\<close>, \<open>lss_filter_out_mask\<close>) and
  the extra filters through the predicate \<^verbatim>\<open>check_extra_filters\<close>, both declared
  outside the sources and taken as they are. \<open>lss_user_marks\<close> maps a bookmark type to
  its sorted vector of marked content lines.
\<close>

record logfile_sub_source =
  lss_files :: "logfile_data list"
  lss_index :: "content_line_t list"
  lss_filtered_index :: "nat list"
  lss_force_rebuild :: bool
  lss_longest_line :: nat
  lss_basename_width :: nat
  lss_filename_width :: nat
  lss_filter_in_mask :: "32 word"
  lss_filter_out_mask :: "32 word"
  check_extra_filters :: "logline \<Rightarrow> bool"
  lss_user_marks :: "(bookmark_type_t \<times> content_line_t list) list"

text \<open>
  What \<^verbatim>\<open>rebuild_index\<close> asks of its collaborators: whether the view is paused,
  what \<^verbatim>\<open>logfile::rebuild_index\<close> reports for a file and leaves behind (the file
  re-observed and the filter state that observes its lines), and whether
  \<^verbatim>\<open>big_array::reserve\<close> allocated. All three are outside the sources and are
  parameters.
\<close>

record index_env =
  is_paused :: bool
  lf_rebuild_index ::
    "logfile \<Rightarrow> logfile_filter_state \<Rightarrow> logfile_rebuild_result_t \<times> logfile \<times> logfile_filter_state"
  ba_reserve :: "content_line_t list \<Rightarrow> nat \<Rightarrow> bool"

text \<open>
  Modelled from the spec: \<^verbatim>\<open>find_data\<close>, \<^verbatim>\<open>find_line\<close>, \<^verbatim>\<open>at\<close> and
  \<^verbatim>\<open>text_line_count\<close> are defined in a header that is not part of the sources.
  Section 3: decoding a ContentLine yields \<open>(slot, line_number)\<close>; section 4.G: a row
  resolves to \<^verbatim>\<open>GlobalIndex[FilteredIndex[row]]\<close>. \<open>find_line\<close> returns the null
  pointer (\<open>Inr None\<close>) for a slot whose file is gone.
\<close>

definition find_data :: "logfile_data list \<Rightarrow> content_line_t \<Rightarrow> (logfile_data \<times> nat) option" where
  "find_data files cl =
     map_option (\<lambda>ld. (ld, cl mod MAX_LINES_PER_FILE)) (nth_opt files (cl div MAX_LINES_PER_FILE))"

definition find_line :: "logfile_data list \<Rightarrow> content_line_t \<Rightarrow> error + logline option" where
  "find_line files cl =
     (case find_data files cl of
        None \<Rightarrow> Inl OutOfRange
      | Some (ld, line_number) \<Rightarrow>
          (case ld_file ld of
             None \<Rightarrow> Inr None
           | Some lf \<Rightarrow>
               (case nth_opt (lf_lines lf) line_number of
                  None \<Rightarrow> Inl OutOfRange
                | Some ll \<Rightarrow> Inr (Some ll))))"

definition text_line_count :: "logfile_sub_source \<Rightarrow> nat" where
  "text_line_count s = length (lss_filtered_index s)"

definition at :: "logfile_sub_source \<Rightarrow> nat \<Rightarrow> content_line_t option" where
  "at s vl = Option.bind (nth_opt (lss_filtered_index s) vl) (nth_opt (lss_index s))"

subsection \<open>Polling the files\<close>

text \<open>
  The locals of \<^verbatim>\<open>rebuild_index\<close> that the first loop updates.
\<close>

record poll_state =
  ps_force :: bool
  ps_retval :: rebuild_result
  ps_file_count :: nat
  ps_total_lines :: nat

definition count_file :: "logfile \<Rightarrow> poll_state \<Rightarrow> poll_state" where
  "count_file lf ps =
     ps\<lparr>ps_file_count := ps_file_count ps + 1,
        ps_total_lines := ps_total_lines ps + length (lf_lines lf)\<rparr>"

definition force_full :: "poll_state \<Rightarrow> poll_state" where
  "force_full ps = ps\<lparr>ps_force := True, ps_retval := rr_full_rebuild\<rparr>"

text \<open>
  One round of the loop "Find new lines in all files", for the slot at position \<open>i\<close>.
  The files are objects that the loop changes in place, so the list of slots is threaded
  through: \<^verbatim>\<open>find_line\<close> on the last indexed line sees the files already
  re-observed.
\<close>

definition poll_file ::
  "index_env \<Rightarrow> content_line_t list \<Rightarrow> logfile_data list \<Rightarrow> nat \<Rightarrow> poll_state
    \<Rightarrow> error + (logfile_data list \<times> poll_state)"
where
  "poll_file env index files i ps =
     (let ld = files ! i in
      case ld_file ld of
        None \<Rightarrow> Inr (files, if ld_lines_indexed ld > 0 then force_full ps else ps)
      | Some lf \<Rightarrow>
          if is_paused env then Inr (files, count_file lf ps)
          else
            (case lf_rebuild_index env lf (ld_filter_state ld) of
               (rebuild0, lf', lfs') \<Rightarrow>
                 (let files' = files[i := ld\<lparr>ld_file := Some lf', ld_filter_state := lfs'\<rparr>];
                      rebuild =
                        (if rebuild0 = RR_NO_NEW_LINES \<and> ld_lines_indexed ld < length (lf_lines lf')
                         then RR_NEW_LINES else rebuild0)
                  in case rebuild of
                       RR_NO_NEW_LINES \<Rightarrow> Inr (files', count_file lf' ps)
                     | RR_NEW_LINES \<Rightarrow>
                         (let ps1 = (if ps_retval ps = rr_no_change
                                     then ps\<lparr>ps_retval := rr_appended_lines\<rparr> else ps)
                          in if index = [] then Inr (files', count_file lf' ps1)
                             else
                               (case nth_opt (lf_lines lf') (ld_lines_indexed ld) of
                                  None \<Rightarrow> Inl OutOfRange
                                | Some new_file_line \<Rightarrow>
                                    (case find_line files' (last index) of
                                       Inl e \<Rightarrow> Inl e
                                     | Inr None \<Rightarrow> Inr (files', count_file lf' (force_full ps1))
                                     | Inr (Some last_indexed_line) \<Rightarrow>
                                         if logline_less new_file_line (get_timeval last_indexed_line)
                                         then Inr (files', count_file lf' (force_full ps1))
                                         else Inr (files', count_file lf' ps1))))
                     | RR_INVALID \<Rightarrow> Inr (files', count_file lf' (force_full ps))
                     | RR_NEW_ORDER \<Rightarrow> Inr (files', count_file lf' (force_full ps)))))"

fun poll_files ::
  "index_env \<Rightarrow> content_line_t list \<Rightarrow> nat list \<Rightarrow> logfile_data list \<times> poll_state
    \<Rightarrow> error + (logfile_data list \<times> poll_state)"
where
  "poll_files env index [] st = Inr st"
| "poll_files env index (i # rest) (files, ps) =
     (case poll_file env index files i ps of
        Inl e \<Rightarrow> Inl e
      | Inr st' \<Rightarrow> poll_files env index rest st')"

subsection \<open>The incremental k-way merge\<close>

text \<open>
  Modelled from the spec: the class \<^verbatim>\<open>kmerge_tree_c\<close> is declared in a header that
  is not part of the sources. Section 4.F: a loser tree (or equivalent) over
  \<^verbatim>\<open>[lf.begin() + lines_indexed .. lf.end())\<close> for every file; "repeatedly take the
  minimum across heads". \<open>merge_heads\<close> lists the head of every file that still has
  lines, by position in \<^verbatim>\<open>lss_files\<close>; \<open>kmerge_top\<close> is \<^verbatim>\<open>get_top\<close>: the
  head with the least timestamp, the lowest slot winning a tie (section 3, ordering key).
  The tree's iterator of a file and the file's \<^verbatim>\<open>ld_lines_indexed\<close> advance
  together (the \<^verbatim>\<open>ensure\<close> of the loop says so), so the heads are read off
  \<^verbatim>\<open>ld_lines_indexed\<close>.

  \<open>merge_loop\<close> is the \<^verbatim>\<open>for (;;)\<close> loop of \<^verbatim>\<open>rebuild_index\<close>: it stops
  when \<^verbatim>\<open>get_top\<close> finds no head, and after the push when the line just consumed was
  its file's last. \<open>lines_left\<close> counts the lines of a slot not yet indexed; their sum
  over the slots is the measure of the loop.
\<close>

definition merge_heads :: "logfile_data list \<Rightarrow> (nat \<times> logline) list" where
  "merge_heads files =
     List.map_filter
       (\<lambda>i. case ld_file (files ! i) of
               None \<Rightarrow> None
             | Some lf \<Rightarrow> map_option (Pair i) (nth_opt (lf_lines lf) (ld_lines_indexed (files ! i))))
       [0..<length files]"

fun kmerge_top :: "(nat \<times> logline) list \<Rightarrow> (nat \<times> logline) option" where
  "kmerge_top [] = None"
| "kmerge_top (h # hs) =
     (case kmerge_top hs of
        None \<Rightarrow> Some h
      | Some m \<Rightarrow> if get_timeval (snd m) < get_timeval (snd h) then Some m else Some h)"

definition lines_left :: "logfile_data \<Rightarrow> nat" where
  "lines_left ld =
     (case ld_file ld of None \<Rightarrow> 0 | Some lf \<Rightarrow> length (lf_lines lf) - ld_lines_indexed ld)"

lemma kmerge_top_mem: "kmerge_top hs = Some h \<Longrightarrow> h \<in> set hs"
  by (induction hs arbitrary: h) (auto split: option.splits if_splits)

lemma merge_heads_mem:
  "(i, ll) \<in> set (merge_heads files) \<Longrightarrow>
     i < length files \<and>
     (\<exists>lf. ld_file (files ! i) = Some lf \<and> ld_lines_indexed (files ! i) < length (lf_lines lf) \<and>
           ll = lf_lines lf ! ld_lines_indexed (files ! i))"
  by (auto simp: merge_heads_def map_filter_def nth_opt_def split: option.splits if_splits)

lemma lines_left_advance:
  assumes "i < length files" and "ld_file (files ! i) = Some lf"
    and "ld_lines_indexed (files ! i) < length (lf_lines lf)"
  shows "sum_list (map lines_left (files[i := (files ! i)\<lparr>ld_lines_indexed := ld_lines_indexed (files ! i) + 1\<rparr>]))
           < sum_list (map lines_left files)"
proof -
  let ?ld' = "(files ! i)\<lparr>ld_lines_indexed := ld_lines_indexed (files ! i) + 1\<rparr>"
  have a: "lines_left ?ld' < lines_left (files ! i)"
    using assms by (simp add: lines_left_def)
  have b: "lines_left (files ! i) \<le> sum_list (map lines_left files)"
    using assms(1) by (simp add: member_le_sum_list)
  have "sum_list (map lines_left (files[i := ?ld'])) =
          sum_list (map lines_left files) + lines_left ?ld' - lines_left (files ! i)"
    using assms(1) by (simp add: map_update sum_list_update)
  with a b show ?thesis by linarith
qed

function merge_loop ::
  "logfile_data list \<Rightarrow> content_line_t list \<Rightarrow> logfile_data list \<times> content_line_t list"
where
  "merge_loop files index =
     (case kmerge_top (merge_heads files) of
        None \<Rightarrow> (files, index)
      | Some (i, lf_iter) \<Rightarrow>
          (let ld = files ! i;
               file_index = ld_file_index ld;
               line_index = ld_lines_indexed ld;
               files' = files[i := ld\<lparr>ld_lines_indexed := line_index + 1\<rparr>];
               con_line = file_index * MAX_LINES_PER_FILE + line_index;
               index' = index @ [con_line]
           in if (case ld_file ld of None \<Rightarrow> False
                 | Some lf \<Rightarrow> line_index + 1 = length (lf_lines lf))
              then (files', index') else merge_loop files' index'))"
  by pat_completeness auto
termination
proof (relation "measure (\<lambda>(files, index). sum_list (map lines_left files))")
  show "wf (measure (\<lambda>(files, index). sum_list (map lines_left files)))" by simp
next
  fix files :: "logfile_data list" and index :: "content_line_t list"
    and x2 x y x2a xa xb xc xd xe
  assume top: "kmerge_top (merge_heads files) = Some x2" and x2: "(x, y) = x2"
    and xa: "xa = files ! x" and xc: "xc = ld_lines_indexed xa"
    and xd: "xd = files[x := xa\<lparr>ld_lines_indexed := xc + 1\<rparr>]"
  from top x2 have "(x, y) \<in> set (merge_heads files)" by (simp add: kmerge_top_mem)
  then obtain lf where "x < length files" "ld_file (files ! x) = Some lf"
    "ld_lines_indexed (files ! x) < length (lf_lines lf)"
    using merge_heads_mem by blast
  then have "sum_list (map lines_left (files[x := (files ! x)\<lparr>ld_lines_indexed := ld_lines_indexed (files ! x) + 1\<rparr>]))
           < sum_list (map lines_left files)"
    by (rule lines_left_advance)
  then show "((xd, xe), files, index) \<in> measure (\<lambda>(files, index). sum_list (map lines_left files))"
    using xa xc xd by simp
qed

declare merge_loop.simps [simp del]


text \<open>
  The else-branch of "Sort the whole thing": every slot with a file and a line left is
  added to the tree, then the loop runs. \<^verbatim>\<open>lf->begin() + ld_lines_indexed\<close> beyond
  \<^verbatim>\<open>lf->end()\<close> is a read out of range.
\<close>

definition kmerge ::
  "logfile_data list \<Rightarrow> content_line_t list \<Rightarrow> error + (logfile_data list \<times> content_line_t list)"
where
  "kmerge files index =
     (if list_ex (\<lambda>ld. case ld_file ld of
                          None \<Rightarrow> False
                        | Some lf \<Rightarrow> length (lf_lines lf) < ld_lines_indexed ld) files
      then Inl OutOfRange
      else Inr (merge_loop files index))"

subsection \<open>The full sort\<close>

text \<open>
  \<^verbatim>\<open>constexpr bool never_force = true\<close>: the constant that gates the full rebuild.
\<close>

definition never_force :: bool where
  "never_force = True"

text \<open>
  Modelled from the spec: the comparator \<^verbatim>\<open>logline_cmp\<close> is declared in a header
  that is not part of the sources. Section 4.F, full sort: "concatenate every file's
  lines (encoded as ContentLines) into GlobalIndex and sort by the section 3 ordering;
  stable sort is required".
\<close>

definition all_content_lines :: "logfile_data list \<Rightarrow> content_line_t list" where
  "all_content_lines files =
     concat (map (\<lambda>ld. case ld_file ld of
                          None \<Rightarrow> []
                        | Some lf \<Rightarrow>
                            map (\<lambda>line_index. ld_file_index ld * MAX_LINES_PER_FILE + line_index)
                              [0..<length (lf_lines lf)]) files)"

definition sort_index :: "logfile_data list \<Rightarrow> content_line_t list \<Rightarrow> content_line_t list" where
  "sort_index files index =
     sort_key (\<lambda>cl. case find_line files cl of Inr (Some ll) \<Rightarrow> get_timeval ll | _ \<Rightarrow> (0, 0)) index"

subsection \<open>Extending the filtered index\<close>

text \<open>
  The body of the loop that builds \<^verbatim>\<open>lss_filtered_index\<close>, shared by
  \<^verbatim>\<open>rebuild_index\<close> and \<^verbatim>\<open>text_filters_changed\<close>: whether the line at position
  \<open>index_index\<close> of the index passes the filters. The line is read only when the filter
  state does not exclude it (the \<^verbatim>\<open>&&\<close> of the source).
\<close>

definition filter_accepts :: "logfile_sub_source \<Rightarrow> nat \<Rightarrow> error + bool" where
  "filter_accepts s index_index =
     (case nth_opt (lss_index s) index_index of
        None \<Rightarrow> Inl OutOfRange
      | Some cl \<Rightarrow>
          (case find_data (lss_files s) cl of
             None \<Rightarrow> Inl OutOfRange
           | Some (ld, line_number) \<Rightarrow>
               (case ld_file ld of
                  None \<Rightarrow> Inl NullFile
                | Some lf \<Rightarrow>
                    (case excluded (ld_filter_state ld) (lss_filter_in_mask s)
                            (lss_filter_out_mask s) line_number of
                       Inl e \<Rightarrow> Inl e
                     | Inr True \<Rightarrow> Inr False
                     | Inr False \<Rightarrow>
                         (case nth_opt (lf_lines lf) line_number of
                            None \<Rightarrow> Inl OutOfRange
                          | Some ll \<Rightarrow> Inr (check_extra_filters s ll))))))"

text \<open>
  The loop over the positions \<open>index_index\<close>. \<^verbatim>\<open>lss_filtered_index\<close> is a
  \<^verbatim>\<open>vector<uint32_t>\<close>: \<^verbatim>\<open>push_back(index_index)\<close> keeps the low 32 bits of the
  \<^verbatim>\<open>size_t\<close>.
\<close>

fun build_filtered_index ::
  "logfile_sub_source \<Rightarrow> nat list \<Rightarrow> nat list \<Rightarrow> error + nat list"
where
  "build_filtered_index s [] filtered = Inr filtered"
| "build_filtered_index s (index_index # rest) filtered =
     (case filter_accepts s index_index of
        Inl e \<Rightarrow> Inl e
      | Inr accepted \<Rightarrow>
          build_filtered_index s rest
            (if accepted then filtered @ [index_index mod 2 ^ 32] else filtered))"

subsection \<open>rebuild\_index\<close>

text \<open>
  "Get longest lines, widest filenames, etc, among all files".
\<close>

definition measure_files :: "logfile_sub_source \<Rightarrow> logfile_sub_source" where
  "measure_files s =
     foldl (\<lambda>s ld. case ld_file ld of
                      None \<Rightarrow> s
                    | Some lf \<Rightarrow>
                        s\<lparr>lss_longest_line := max (lss_longest_line s) (lf_longest_line lf),
                          lss_basename_width := max (lss_basename_width s) (length (lf_unique_path lf)),
                          lss_filename_width := max (lss_filename_width s) (length (lf_filename lf))\<rparr>)
       s (lss_files s)"

text \<open>
  The block under \<^verbatim>\<open>if (retval != rr_no_change || force)\<close>: measure, extend the
  index by the full sort or by the merge, then extend the filtered index from the size
  the index had on entry. The calls to the index delegate leave the sub-source unchanged
  and are not part of the state.
\<close>

definition extend_index :: "bool \<Rightarrow> logfile_sub_source \<Rightarrow> error + logfile_sub_source" where
  "extend_index full_sort s =
     (let start_size = length (lss_index s);
          s1 = measure_files s
      in case (if full_sort
               then Inr (lss_files s1,
                         sort_index (lss_files s1) (lss_index s1 @ all_content_lines (lss_files s1)))
               else kmerge (lss_files s1) (lss_index s1)) of
           Inl e \<Rightarrow> Inl e
         | Inr (files, index) \<Rightarrow>
             (let s2 = s1\<lparr>lss_files := files, lss_index := index\<rparr>
              in case build_filtered_index s2 [start_size..<length index] (lss_filtered_index s2) of
                   Inl e \<Rightarrow> Inl e
                 | Inr filtered \<Rightarrow> Inr (s2\<lparr>lss_filtered_index := filtered\<rparr>)))"

text \<open>
  \<^verbatim>\<open>logfile_sub_source::rebuild_index\<close>. The view is asked
  \<^verbatim>\<open>redo_search\<close> or \<^verbatim>\<open>search_new_data\<close> according to the value returned;
  these calls do not change the sub-source.
\<close>

definition rebuild_index ::
  "index_env \<Rightarrow> logfile_sub_source \<Rightarrow> error + (rebuild_result \<times> logfile_sub_source)"
where
  "rebuild_index env s =
     (let force0 = lss_force_rebuild s;
          ps0 = \<lparr>ps_force = force0,
                 ps_retval = (if force0 then rr_full_rebuild else rr_no_change),
                 ps_file_count = 0, ps_total_lines = 0\<rparr>
      in case poll_files env (lss_index s) [0..<length (lss_files s)] (lss_files s, ps0) of
           Inl e \<Rightarrow> Inl e
         | Inr (files, ps) \<Rightarrow>
             (let force = (ps_force ps \<or> ba_reserve env (lss_index s) (ps_total_lines ps));
                  retval = ps_retval ps;
                  full_sort = (force \<and> \<not> never_force);
                  s1 = s\<lparr>lss_force_rebuild := False, lss_files := files\<rparr>;
                  s2 = (if force \<and> \<not> never_force
                        then s1\<lparr>lss_files := map (\<lambda>ld. ld\<lparr>ld_lines_indexed := 0\<rparr>) files,
                                lss_index := [], lss_filtered_index := [],
                                lss_longest_line := 0, lss_basename_width := 0,
                                lss_filename_width := 0\<rparr>
                        else s1)
              in case (if retval \<noteq> rr_no_change \<or> force then extend_index full_sort s2
                       else Inr s2) of
                   Inl e \<Rightarrow> Inl e
                 | Inr s3 \<Rightarrow>
                     Inr (if retval = rr_full_rebuild \<and> never_force then rr_appended_lines
                          else retval, s3)))"

section \<open>Bookmarks (text\_update\_marks)\<close>

text \<open>
  \<^verbatim>\<open>vis_bookmarks\<close>: for every bookmark type the sorted vector of marked rows.

  Modelled from the spec: \<^verbatim>\<open>bookmark_vector::insert_once\<close> is declared in a header
  that is not part of the sources. Section 3, BookmarkStore: a "sorted set of row
  numbers"; inserting a row that is present changes nothing.
\<close>

type_synonym vis_bookmarks = "bookmark_type_t \<Rightarrow> nat list"

definition insert_once :: "nat \<Rightarrow> nat list \<Rightarrow> nat list" where
  "insert_once vl bv = (if vl \<in> set bv then bv else insort vl bv)"

text \<open>
  \<^verbatim>\<open>set_mark(true)\<close> on line \<open>cl\<close> of the file in slot \<open>slot\<close>.
\<close>

definition set_mark :: "logfile_data list \<Rightarrow> nat \<Rightarrow> nat \<Rightarrow> logfile_data list" where
  "set_mark files slot cl =
     (case ld_file (files ! slot) of
        None \<Rightarrow> files
      | Some lf \<Rightarrow>
          files[slot := (files ! slot)
                  \<lparr>ld_file := Some (lf\<lparr>lf_lines := (lf_lines lf)[cl := (lf_lines lf ! cl)\<lparr>ll_mark := True\<rparr>]\<rparr>)\<rparr>])"

text \<open>
  The inner loop over \<^verbatim>\<open>lss_user_marks\<close> for the row \<open>vl\<close> whose content line is
  \<open>orig_cl\<close>: \<^verbatim>\<open>binary_search\<close> on the sorted vector of a mark type is membership.
\<close>

fun apply_user_marks ::
  "(bookmark_type_t \<times> content_line_t list) list \<Rightarrow> nat \<Rightarrow> content_line_t
    \<Rightarrow> vis_bookmarks \<times> logfile_data list \<Rightarrow> vis_bookmarks \<times> logfile_data list"
where
  "apply_user_marks [] vl orig_cl st = st"
| "apply_user_marks ((bm_type, marks) # rest) vl orig_cl (bm, files) =
     apply_user_marks rest vl orig_cl
       (if orig_cl \<in> set marks
        then (bm(bm_type := insert_once vl (bm bm_type)),
              if bm_type = BM_USER
              then set_mark files (orig_cl div MAX_LINES_PER_FILE) (orig_cl mod MAX_LINES_PER_FILE)
              else files)
        else (bm, files))"

text \<open>
  The end of the loop body: a line that is not a continuation is filed under its level
  (the \<^verbatim>\<open>switch\<close> on \<^verbatim>\<open>get_msg_level()\<close>).
\<close>

definition mark_level :: "nat \<Rightarrow> logline \<Rightarrow> vis_bookmarks \<Rightarrow> vis_bookmarks" where
  "mark_level vl line bm =
     (if \<not> ll_continued line then
        (case ll_level line of
           LEVEL_WARNING \<Rightarrow> bm(BM_WARNINGS := insert_once vl (bm BM_WARNINGS))
         | LEVEL_FATAL \<Rightarrow> bm(BM_ERRORS := insert_once vl (bm BM_ERRORS))
         | LEVEL_ERROR \<Rightarrow> bm(BM_ERRORS := insert_once vl (bm BM_ERRORS))
         | LEVEL_CRITICAL \<Rightarrow> bm(BM_ERRORS := insert_once vl (bm BM_ERRORS))
         | _ \<Rightarrow> bm)
      else bm)"

text \<open>
  The body of the loop over the rows. \<open>last_file\<close> is the slot of the file of the row
  before (\<open>None\<close> for the null pointer the loop starts with): the comparison of the two
  shared pointers compares the slots. A row whose file is gone or whose line lies beyond
  the file is dereferenced by the source and is an error here.
\<close>

definition update_marks_row ::
  "logfile_sub_source \<Rightarrow> nat \<Rightarrow> vis_bookmarks \<times> logfile_data list \<times> nat option
    \<Rightarrow> error + (vis_bookmarks \<times> logfile_data list \<times> nat option)"
where
  "update_marks_row s vl st =
     (case st of (bm, files, last_file) \<Rightarrow>
      case at s vl of
        None \<Rightarrow> Inl OutOfRange
      | Some orig_cl \<Rightarrow>
          (case find_data files orig_cl of
             None \<Rightarrow> Inl OutOfRange
           | Some (ld, cl) \<Rightarrow>
               (case ld_file ld of
                  None \<Rightarrow> Inl NullFile
                | Some lf \<Rightarrow>
                    (case nth_opt (lf_lines lf) cl of
                       None \<Rightarrow> Inl OutOfRange
                     | Some line \<Rightarrow>
                         (case apply_user_marks (lss_user_marks s) vl orig_cl (bm, files) of
                            (bm1, files1) \<Rightarrow>
                              (let slot = orig_cl div MAX_LINES_PER_FILE;
                                   bm2 = (if Some slot \<noteq> last_file
                                          then bm1(BM_FILES := insert_once vl (bm1 BM_FILES))
                                          else bm1)
                               in Inr (mark_level vl line bm2, files1, Some slot)))))))"

fun update_marks_rows ::
  "logfile_sub_source \<Rightarrow> nat list \<Rightarrow> vis_bookmarks \<times> logfile_data list \<times> nat option
    \<Rightarrow> error + (vis_bookmarks \<times> logfile_data list \<times> nat option)"
where
  "update_marks_rows s [] st = Inr st"
| "update_marks_rows s (vl # rest) st =
     (case update_marks_row s vl st of
        Inl e \<Rightarrow> Inl e
      | Inr st' \<Rightarrow> update_marks_rows s rest st')"

text \<open>
  \<^verbatim>\<open>logfile_sub_source::text_update_marks\<close>. The loop runs while
  \<^verbatim>\<open>vl < (int) lss_filtered_index.size()\<close>: the bound is the size converted to a
  32-bit \<^verbatim>\<open>int\<close>.
\<close>

definition text_update_marks ::
  "logfile_sub_source \<Rightarrow> vis_bookmarks \<Rightarrow> error + (vis_bookmarks \<times> logfile_sub_source)"
where
  "text_update_marks s bm =
     (let bm0 = foldl (\<lambda>b t. b(t := [])) bm
                  ([BM_WARNINGS, BM_ERRORS, BM_FILES] @ map fst (lss_user_marks s));
          bound = sint (word_of_nat (length (lss_filtered_index s)) :: 32 word)
      in case update_marks_rows s [0..<nat bound] (bm0, lss_files s, None) of
           Inl e \<Rightarrow> Inl e
         | Inr (bm', files', last_file) \<Rightarrow> Inr (bm', s\<lparr>lss_files := files'\<rparr>))"

section \<open>text\_filters\_changed\<close>

text \<open>
  \<^verbatim>\<open>logfile_sub_source::text_filters_changed\<close>. For every slot with a file,
  \<^verbatim>\<open>clear_deleted_filter_state\<close> and \<^verbatim>\<open>reobserve_from\<close> (both outside the
  sources) leave a new filter state, given by the parameter \<open>refilter\<close>. The filtered
  index is cleared and rebuilt over the whole index. \<open>view\<close> is the bookmark store of
  \<^verbatim>\<open>tss_view\<close>, \<open>None\<close> for the null pointer: \<^verbatim>\<open>reload_data\<close> runs
  \<^verbatim>\<open>text_update_marks\<close> on it.
\<close>

definition text_filters_changed ::
  "(logfile \<Rightarrow> logfile_filter_state \<Rightarrow> logfile_filter_state) \<Rightarrow> logfile_sub_source
    \<Rightarrow> vis_bookmarks option \<Rightarrow> error + (logfile_sub_source \<times> vis_bookmarks option)"
where
  "text_filters_changed refilter s view =
     (let files = map (\<lambda>ld. case ld_file ld of
                               None \<Rightarrow> ld
                             | Some lf \<Rightarrow> ld\<lparr>ld_filter_state := refilter lf (ld_filter_state ld)\<rparr>)
                    (lss_files s);
          s1 = s\<lparr>lss_files := files, lss_filtered_index := []\<rparr>
      in case build_filtered_index s1 [0..<length (lss_index s1)] [] of
           Inl e \<Rightarrow> Inl e
         | Inr filtered \<Rightarrow>
             (let s2 = s1\<lparr>lss_filtered_index := filtered\<rparr>
              in case view of
                   None \<Rightarrow> Inr (s2, None)
                 | Some bm \<Rightarrow>
                     (case text_update_marks s2 bm of
                        Inl e \<Rightarrow> Inl e
                      | Inr (bm', s3) \<Rightarrow> Inr (s3, Some bm'))))"

section \<open>The location history\<close>

text \<open>
  \<^verbatim>\<open>log_location_history\<close>: the ring of visited content lines and the cursor
  \<^verbatim>\<open>lh_history_position\<close>.

  Modelled from the spec: the ring buffer behind \<^verbatim>\<open>llh_history\<close> (its
  \<^verbatim>\<open>erase_from\<close> and \<^verbatim>\<open>push_back\<close>) is declared in a header that is not part
  of the sources. Section 4.J: a bounded ring; \<^verbatim>\<open>push\<close> truncates the forward entries
  and appends. \<open>llh_max_size\<close> is the bound; a push into a full ring drops the oldest
  entry.
\<close>

record log_location_history =
  llh_history :: "content_line_t list"
  lh_history_position :: nat
  llh_max_size :: nat

definition ring_push_back :: "nat \<Rightarrow> content_line_t list \<Rightarrow> content_line_t \<Rightarrow> content_line_t list" where
  "ring_push_back max_size h cl = (if length h < max_size then h @ [cl] else tl h @ [cl])"

text \<open>
  \<^verbatim>\<open>log_location_history::loc_history_append\<close>. \<open>top_line\<close> (the
  source's \<^verbatim>\<open>top\<close>) is a \<^verbatim>\<open>vis_line_t\<close>, a
  32-bit \<^verbatim>\<open>int\<close>; the comparison with the \<^verbatim>\<open>size_t\<close> of
  \<^verbatim>\<open>text_line_count()\<close> converts it to 64 bits unsigned.
\<close>

definition loc_history_append ::
  "logfile_sub_source \<Rightarrow> 32 word \<Rightarrow> log_location_history \<Rightarrow> error + log_location_history"
where
  "loc_history_append s top_line h =
     (if nat (sint top_line mod 2 ^ 64) \<ge> text_line_count s then Inr h
      else
        (case at s (nat (sint top_line)) of
           None \<Rightarrow> Inl OutOfRange
         | Some cl \<Rightarrow>
             if length (llh_history h) < lh_history_position h then Inl OutOfRange
             else
               Inr (h\<lparr>llh_history :=
                        ring_push_back (llh_max_size h)
                          (take (length (llh_history h) - lh_history_position h) (llh_history h)) cl,
                      lh_history_position := 0\<rparr>)))"

section \<open>Timestamp styles (text\_attrs\_for\_line)\<close>

text \<open>
  A \<^verbatim>\<open>string_attr\<close>: a range of the rendered line, the type of the attribute and its
  value. Only the attribute types that the function pushes or looks for are listed.
  \<open>role_t\<close> are the roles of \<^verbatim>\<open>view_colors\<close> the function asks for; what
  \<^verbatim>\<open>attrs_for_role\<close> returns for a role is a parameter.
\<close>

record line_range =
  lr_start :: int
  lr_end :: int

datatype string_attr_type =
    L_TIMESTAMP | L_FILE | L_PARTITION | L_META | VC_STYLE | VC_GRAPHIC
  | SA_ORIGINAL_LINE | SA_HIDDEN | SA_FORMAT | SA_BODY

datatype role_t =
    VCR_OFFSET_TIME | VCR_DIFF_DELETE | VCR_DIFF_ADD | VCR_ADJUSTED_TIME | VCR_ALT_ROW
  | VCR_SKEWED_TIME

record string_attr =
  sa_range :: line_range
  sa_type :: string_attr_type
  sa_value :: int

text \<open>
  Modelled from the spec: \<^verbatim>\<open>find_string_attr_range\<close> is declared in a header that is
  not part of the sources. Section 4.G: "the range identified by TIMESTAMP"; the source
  tests \<^verbatim>\<open>lr_end != -1\<close> for a range that was found, so the range of a missing
  attribute is \<open>(-1, -1)\<close>.
\<close>

fun find_string_attr_range :: "string_attr list \<Rightarrow> string_attr_type \<Rightarrow> line_range" where
  "find_string_attr_range [] t = \<lparr>lr_start = -1, lr_end = -1\<rparr>"
| "find_string_attr_range (a # rest) t =
     (if sa_type a = t then sa_range a else find_string_attr_range rest t)"

text \<open>
  The last stage of \<^verbatim>\<open>logfile_sub_source::text_attrs_for_line\<close> (from
  \<^verbatim>\<open>if (this->lss_token_file->is_time_adjusted())\<close> to the end): the styles of the
  timestamp. \<open>value_out\<close> is the attribute list the earlier stages have built;
  \<open>token_file\<close> and \<open>token_line\<close> are \<^verbatim>\<open>lss_token_file\<close> and
  \<^verbatim>\<open>lss_token_line\<close>. \<^verbatim>\<open>get_time() / (5 * 60) % 2\<close> is C++ integer arithmetic
  on a signed \<^verbatim>\<open>time_t\<close>: it truncates towards zero.
\<close>

definition style_time_range ::
  "(role_t \<Rightarrow> int) \<Rightarrow> role_t \<Rightarrow> string_attr list \<Rightarrow> string_attr list"
where
  "style_time_range attrs_for_role role value_out =
     (let time_range = find_string_attr_range value_out L_TIMESTAMP
      in if lr_end time_range \<noteq> -1
         then value_out @ [\<lparr>sa_range = time_range, sa_type = VC_STYLE,
                             sa_value = attrs_for_role role\<rparr>]
         else value_out)"

definition text_attrs_for_line_time ::
  "(role_t \<Rightarrow> int) \<Rightarrow> logfile \<Rightarrow> logline \<Rightarrow> string_attr list \<Rightarrow> string_attr list"
where
  "text_attrs_for_line_time attrs_for_role token_file token_line value_out =
     (let v1 =
            (if lf_time_adjusted token_file
             then style_time_range attrs_for_role VCR_ADJUSTED_TIME value_out
             else if (ll_time token_line sdiv (5 * 60)) smod 2 = 0 \<and> \<not> ll_continued token_line
             then style_time_range attrs_for_role VCR_ALT_ROW value_out
             else value_out)
      in if ll_time_skewed token_line
         then style_time_range attrs_for_role VCR_SKEWED_TIME v1
         else v1)"

section \<open>Scenarios\<close>

text \<open>
  Concrete files, sources and collaborators on which the properties below are run.
  \<open>line_at t\<close> is an INFO line stamped \<open>t\<close> seconds; \<open>slot_of i lf n\<close> is slot \<open>i\<close>
  holding the file \<open>lf\<close> with \<open>n\<close> lines indexed and one clear mask per line;
  \<open>source_of\<close> is a sub-source with no filter enabled.
\<close>

definition fresh_filter_state :: "nat \<Rightarrow> logfile_filter_state" where
  "fresh_filter_state n =
     \<lparr>tfs_mask = replicate n 0, tfs_filter_count = (\<lambda>_. 0), tfs_filter_hits = (\<lambda>_. 0),
      tfs_message_matched = (\<lambda>_. False), tfs_lines_for_message = (\<lambda>_. 0),
      tfs_last_message_matched = (\<lambda>_. False), tfs_last_lines_for_message = (\<lambda>_. 0)\<rparr>"

definition line_at :: "int \<Rightarrow> logline" where
  "line_at t = \<lparr>ll_time = t, ll_millis = 0, ll_level = LEVEL_INFO, ll_continued = False,
                ll_time_skewed = False, ll_mark = False\<rparr>"

definition file_of :: "string \<Rightarrow> logline list \<Rightarrow> logfile" where
  "file_of name ls = \<lparr>lf_filename = name, lf_unique_path = name, lf_longest_line = 10,
                lf_lines = ls, lf_time_adjusted = False\<rparr>"

definition slot_of :: "nat \<Rightarrow> logfile \<Rightarrow> nat \<Rightarrow> logfile_data" where
  "slot_of i lf n = \<lparr>ld_file_index = i, ld_file = Some lf, ld_lines_indexed = n,
                     ld_filter_state = fresh_filter_state (length (lf_lines lf))\<rparr>"

definition source_of :: "logfile_data list \<Rightarrow> content_line_t list \<Rightarrow> nat list \<Rightarrow> logfile_sub_source" where
  "source_of files index filtered =
     \<lparr>lss_files = files, lss_index = index, lss_filtered_index = filtered,
      lss_force_rebuild = False, lss_longest_line = 0, lss_basename_width = 0,
      lss_filename_width = 0, lss_filter_in_mask = 0, lss_filter_out_mask = 0,
      check_extra_filters = (\<lambda>_. True), lss_user_marks = []\<rparr>"

definition role_attrs :: "role_t \<Rightarrow> int" where
  "role_attrs r = (case r of VCR_OFFSET_TIME \<Rightarrow> 1 | VCR_DIFF_DELETE \<Rightarrow> 2 | VCR_DIFF_ADD \<Rightarrow> 3
                   | VCR_ADJUSTED_TIME \<Rightarrow> 4 | VCR_ALT_ROW \<Rightarrow> 5 | VCR_SKEWED_TIME \<Rightarrow> 6)"

definition timestamp_attr :: string_attr where
  "timestamp_attr = \<lparr>sa_range = \<lparr>lr_start = 1, lr_end = 24\<rparr>, sa_type = L_TIMESTAMP, sa_value = 0\<rparr>"

definition alt_row_attr :: "(role_t \<Rightarrow> int) \<Rightarrow> string_attr list \<Rightarrow> string_attr" where
  "alt_row_attr attrs_for_role value_out =
     \<lparr>sa_range = find_string_attr_range value_out L_TIMESTAMP, sa_type = VC_STYLE,
      sa_value = attrs_for_role VCR_ALT_ROW\<rparr>"

definition marked_source :: logfile_sub_source where
  "marked_source =
     source_of [slot_of 0 (file_of ''A'' [line_at 1, (line_at 1)\<lparr>ll_level := LEVEL_WARNING\<rparr>,
                  (line_at 1)\<lparr>ll_level := LEVEL_WARNING, ll_continued := True\<rparr>,
                  (line_at 2)\<lparr>ll_level := LEVEL_FATAL\<rparr>]) 4] [0, 1, 2, 3] [0, 1, 2, 3]"

definition err_filter :: text_filter where
  "err_filter = \<lparr>lf_index = 2, matches = (\<lambda>lf ll line. take 3 line = ''ERR'')\<rparr>"

definition msg_head :: logline where
  "msg_head = \<lparr>ll_time = 10, ll_millis = 0, ll_level = LEVEL_ERROR, ll_continued = False,
                ll_time_skewed = False, ll_mark = False\<rparr>"

definition msg_cont :: logline where
  "msg_cont = msg_head\<lparr>ll_continued := True\<rparr>"

definition msg_file :: logfile where
  "msg_file = \<lparr>lf_filename = ''c.log'', lf_unique_path = ''c.log'', lf_longest_line = 9,
                lf_lines = [msg_head, msg_cont, msg_cont], lf_time_adjusted = False\<rparr>"


text \<open>
  \<open>content_line\<close> is the encoding of \<^verbatim>\<open>rebuild_index\<close>
  (\<^verbatim>\<open>file_index * MAX_LINES_PER_FILE + line_index\<close>). \<open>quiet_env\<close> is a view that is
  not paused over files that report no new lines and an array that never reallocates;
  \<open>reorder_env\<close> reports \<^verbatim>\<open>RR_NEW_ORDER\<close> for every file; \<open>append_env name ll\<close>
  appends the line \<open>ll\<close> (and a clear mask) to the file called \<open>name\<close> and reports
  \<^verbatim>\<open>RR_NEW_LINES\<close> for it. \<open>two_files\<close> are the files A (lines at 1, 3, 5) and B
  (lines at 2, 4, 6), nothing indexed; \<open>indexed_file\<close> is the file A fully indexed;
  \<open>two_indexed\<close> are A (a line at 1) and B (a line at 2), both indexed;
  \<open>filtered_source\<close> is a file of three indexed lines whose masks are 1, 0 and 3 under an
  IN filter in slot 0 and an OUT filter in slot 1.
\<close>

definition content_line :: "nat \<Rightarrow> nat \<Rightarrow> content_line_t" where
  "content_line file_index line_index = file_index * MAX_LINES_PER_FILE + line_index"

definition quiet_env :: index_env where
  "quiet_env = \<lparr>is_paused = False,
                lf_rebuild_index = (\<lambda>lf lfs. (RR_NO_NEW_LINES, lf, lfs)),
                ba_reserve = (\<lambda>index total_lines. False)\<rparr>"

definition reorder_env :: index_env where
  "reorder_env = quiet_env\<lparr>lf_rebuild_index := (\<lambda>lf lfs. (RR_NEW_ORDER, lf, lfs))\<rparr>"

definition append_env :: "string \<Rightarrow> logline \<Rightarrow> index_env" where
  "append_env name ll =
     quiet_env\<lparr>lf_rebuild_index :=
       (\<lambda>lf lfs. if lf_filename lf = name
                  then (RR_NEW_LINES, lf\<lparr>lf_lines := lf_lines lf @ [ll]\<rparr>,
                        lfs\<lparr>tfs_mask := tfs_mask lfs @ [0]\<rparr>)
                  else (RR_NO_NEW_LINES, lf, lfs))\<rparr>"

definition two_files :: logfile_sub_source where
  "two_files =
     source_of [slot_of 0 (file_of ''A'' [line_at 1, line_at 3, line_at 5]) 0,
                slot_of 1 (file_of ''B'' [line_at 2, line_at 4, line_at 6]) 0] [] []"

definition indexed_file :: logfile_sub_source where
  "indexed_file =
     source_of [slot_of 0 (file_of ''A'' [line_at 1, line_at 3, line_at 5]) 3]
       [content_line 0 0, content_line 0 1, content_line 0 2] [0, 1, 2]"

definition two_indexed :: logfile_sub_source where
  "two_indexed =
     source_of [slot_of 0 (file_of ''A'' [line_at 1]) 1, slot_of 1 (file_of ''B'' [line_at 2]) 1]
       [content_line 0 0, content_line 1 0] [0, 1]"

definition filtered_source :: logfile_sub_source where
  "filtered_source =
     (source_of
        [(slot_of 0 (file_of ''A'' [line_at 1, line_at 2, line_at 3]) 3)
           \<lparr>ld_filter_state := (fresh_filter_state 3)\<lparr>tfs_mask := [1, 0, 3]\<rparr>\<rparr>]
        [content_line 0 0, content_line 0 1, content_line 0 2] [0, 1, 2])
       \<lparr>lss_filter_in_mask := 1, lss_filter_out_mask := 2\<rparr>"

section \<open>Predicates of the properties\<close>

text \<open>
  \<open>erase_marks\<close> forgets the mark flag of every line: \<^verbatim>\<open>text_update_marks\<close> changes
  the files in nothing else. \<open>row_line\<close> is the log line behind a row of the view;
  \<open>is_warning_row\<close> and \<open>is_error_row\<close> say that the line behind a row is not a
  continuation and has the level WARNING, respectively ERROR, CRITICAL or FATAL.
\<close>

definition erase_marks :: "logfile_data list \<Rightarrow> logfile_data list" where
  "erase_marks files =
     map (\<lambda>ld. ld\<lparr>ld_file :=
                  map_option (\<lambda>lf. lf\<lparr>lf_lines := map (\<lambda>ll. ll\<lparr>ll_mark := False\<rparr>) (lf_lines lf)\<rparr>)
                    (ld_file ld)\<rparr>) files"

definition row_line :: "logfile_sub_source \<Rightarrow> nat \<Rightarrow> logline option" where
  "row_line s vl =
     (case at s vl of
        None \<Rightarrow> None
      | Some cl \<Rightarrow> (case find_line (lss_files s) cl of Inr (Some ll) \<Rightarrow> Some ll | _ \<Rightarrow> None))"

definition is_warning_row :: "logfile_sub_source \<Rightarrow> nat \<Rightarrow> bool" where
  "is_warning_row s vl =
     (case row_line s vl of
        None \<Rightarrow> False
      | Some ll \<Rightarrow> \<not> ll_continued ll \<and> ll_level ll = LEVEL_WARNING)"

definition is_error_row :: "logfile_sub_source \<Rightarrow> nat \<Rightarrow> bool" where
  "is_error_row s vl =
     (case row_line s vl of
        None \<Rightarrow> False
      | Some ll \<Rightarrow> \<not> ll_continued ll \<and> ll_level ll \<in> {LEVEL_ERROR, LEVEL_CRITICAL, LEVEL_FATAL})"


text \<open>
  What a call of \<^verbatim>\<open>rebuild_index\<close> returned: its value, the index and the filtered
  index it left (\<open>None\<close> when the call did not return); \<open>rebuild_again\<close> is the next
  call on the state the first one left.
\<close>

definition returned :: "error + rebuild_result \<times> logfile_sub_source \<Rightarrow> rebuild_result option" where
  "returned res = (case res of Inl e \<Rightarrow> None | Inr (r, s) \<Rightarrow> Some r)"

definition index_of :: "error + rebuild_result \<times> logfile_sub_source \<Rightarrow> content_line_t list option" where
  "index_of res = (case res of Inl e \<Rightarrow> None | Inr (r, s) \<Rightarrow> Some (lss_index s))"

definition filtered_of :: "error + rebuild_result \<times> logfile_sub_source \<Rightarrow> nat list option" where
  "filtered_of res = (case res of Inl e \<Rightarrow> None | Inr (r, s) \<Rightarrow> Some (lss_filtered_index s))"

definition rebuild_again ::
  "index_env \<Rightarrow> error + rebuild_result \<times> logfile_sub_source
    \<Rightarrow> error + rebuild_result \<times> logfile_sub_source"
where
  "rebuild_again env res = (case res of Inl e \<Rightarrow> Inl e | Inr (r, s) \<Rightarrow> rebuild_index env s)"

text \<open>
  \<open>reports env ld\<close> is what the re-observation of the file in slot \<open>ld\<close> reports;
  \<open>observe env ld\<close> is the slot as the polling loop leaves it, and \<open>observed env s\<close>
  are all slots so.
\<close>

definition reports :: "index_env \<Rightarrow> logfile_data \<Rightarrow> logfile_rebuild_result_t option" where
  "reports env ld =
     (case ld_file ld of
        None \<Rightarrow> None
      | Some lf \<Rightarrow> Some (fst (lf_rebuild_index env lf (ld_filter_state ld))))"

definition observe :: "index_env \<Rightarrow> logfile_data \<Rightarrow> logfile_data" where
  "observe env ld =
     (case ld_file ld of
        None \<Rightarrow> ld
      | Some lf \<Rightarrow>
          if is_paused env then ld
          else (case lf_rebuild_index env lf (ld_filter_state ld) of
                  (rebuild, lf', lfs') \<Rightarrow> ld\<lparr>ld_file := Some lf', ld_filter_state := lfs'\<rparr>))"

definition observed :: "index_env \<Rightarrow> logfile_sub_source \<Rightarrow> logfile_data list" where
  "observed env s = map (observe env) (lss_files s)"

text \<open>
  Well-formedness of a sub-source for a call of \<^verbatim>\<open>rebuild_index\<close>. \<open>slot_wf\<close>: the
  slot at position \<open>i\<close> has the file index \<open>i\<close>, and its file as re-observed has at
  least the lines already indexed (section 3 of the specification:
  \<^verbatim>\<open>lines_indexed <= file.size()\<close>), at most \<^verbatim>\<open>MAX_LINES_PER_FILE\<close> lines, a mask
  for every line, and a line not yet indexed when it reports new lines. \<open>tail_resolves\<close>:
  the last entry of the index names a slot, and a line of that slot's file, before and
  after the re-observation. \<open>index_wf\<close> is both.
\<close>

definition slot_wf :: "index_env \<Rightarrow> content_line_t list \<Rightarrow> nat \<Rightarrow> logfile_data \<Rightarrow> bool" where
  "slot_wf env index i ld =
     (ld_file_index ld = i \<and>
      (case ld_file (observe env ld) of
         None \<Rightarrow> True
       | Some lf' \<Rightarrow>
           ld_lines_indexed ld \<le> length (lf_lines lf') \<and>
           length (lf_lines lf') \<le> MAX_LINES_PER_FILE \<and>
           length (lf_lines lf') \<le> length (tfs_mask (ld_filter_state (observe env ld))) \<and>
           (index = [] \<or> is_paused env \<or> reports env ld \<noteq> Some RR_NEW_LINES \<or>
            ld_lines_indexed ld < length (lf_lines lf'))))"

definition line_in_file :: "logfile_data \<Rightarrow> nat \<Rightarrow> bool" where
  "line_in_file ld n = (case ld_file ld of None \<Rightarrow> True | Some lf \<Rightarrow> n < length (lf_lines lf))"

definition tail_resolves :: "index_env \<Rightarrow> logfile_sub_source \<Rightarrow> bool" where
  "tail_resolves env s =
     (lss_index s = [] \<or>
      (last (lss_index s) div MAX_LINES_PER_FILE < length (lss_files s) \<and>
       line_in_file (lss_files s ! (last (lss_index s) div MAX_LINES_PER_FILE))
         (last (lss_index s) mod MAX_LINES_PER_FILE) \<and>
       line_in_file (observe env (lss_files s ! (last (lss_index s) div MAX_LINES_PER_FILE)))
         (last (lss_index s) mod MAX_LINES_PER_FILE)))"

definition index_wf :: "index_env \<Rightarrow> logfile_sub_source \<Rightarrow> bool" where
  "index_wf env s =
     (list_all (\<lambda>i. slot_wf env (lss_index s) i (lss_files s ! i)) [0..<length (lss_files s)] \<and>
      tail_resolves env s)"

text \<open>
  \<open>entry_ok files cl\<close>: the content line \<open>cl\<close> names a slot with a file, a line of that
  file and a mask for the line. \<open>slots_ok\<close> is the part of \<open>slot_wf\<close> that the merge
  relies on. \<open>refiltered\<close> are the slots with the filter states that
  \<^verbatim>\<open>text_filters_changed\<close> leaves; \<open>filters_wf\<close>: every entry of the index is
  \<open>entry_ok\<close> for them. \<open>rows_resolve\<close>: every row of the view has a log line behind it.
\<close>

definition entry_ok :: "logfile_data list \<Rightarrow> content_line_t \<Rightarrow> bool" where
  "entry_ok files cl =
     (case find_data files cl of
        None \<Rightarrow> False
      | Some (ld, n) \<Rightarrow>
          (case ld_file ld of
             None \<Rightarrow> False
           | Some lf \<Rightarrow> n < length (lf_lines lf) \<and> n < length (tfs_mask (ld_filter_state ld))))"

definition slots_ok :: "logfile_data list \<Rightarrow> bool" where
  "slots_ok files =
     (\<forall>i < length files. \<forall>lf. ld_file (files ! i) = Some lf \<longrightarrow>
        ld_file_index (files ! i) = i \<and> length (lf_lines lf) \<le> MAX_LINES_PER_FILE \<and>
        length (lf_lines lf) \<le> length (tfs_mask (ld_filter_state (files ! i))))"

definition refiltered ::
  "(logfile \<Rightarrow> logfile_filter_state \<Rightarrow> logfile_filter_state) \<Rightarrow> logfile_data list
    \<Rightarrow> logfile_data list"
where
  "refiltered refilter files =
     map (\<lambda>ld. case ld_file ld of
                 None \<Rightarrow> ld
               | Some lf \<Rightarrow> ld\<lparr>ld_filter_state := refilter lf (ld_filter_state ld)\<rparr>) files"

definition filters_wf ::
  "(logfile \<Rightarrow> logfile_filter_state \<Rightarrow> logfile_filter_state) \<Rightarrow> logfile_sub_source \<Rightarrow> bool"
where
  "filters_wf refilter s = list_all (entry_ok (refiltered refilter (lss_files s))) (lss_index s)"

definition rows_resolve :: "logfile_sub_source \<Rightarrow> bool" where
  "rows_resolve s = list_all (\<lambda>vl. row_line s vl \<noteq> None) [0..<length (lss_filtered_index s)]"

text \<open>
  \<open>filtered_index_ok\<close>: the filtered index is strictly increasing and every entry is a
  position of the index. \<open>line_time\<close> is the timestamp of the line a content line names;
  \<open>index_sorted\<close>: every entry of the index names a line and the timestamps are in
  non-decreasing order; \<open>sorted_after\<close>: a call returned and left the index so.
  \<open>in_order files index\<close>: every file's lines not yet indexed are in non-decreasing
  timestamp order and none of them predates the last entry of the index.
  \<open>measure_step\<close> is the body of the loop of \<open>measure_files\<close>.
\<close>

definition filtered_index_ok :: "logfile_sub_source \<Rightarrow> bool" where
  "filtered_index_ok s =
     (sorted_wrt (<) (lss_filtered_index s) \<and>
      list_all (\<lambda>i. i < length (lss_index s)) (lss_filtered_index s))"





definition measure_step :: "logfile_sub_source \<Rightarrow> logfile_data \<Rightarrow> logfile_sub_source" where
  "measure_step s ld = (case ld_file ld of
                      None \<Rightarrow> s
                    | Some lf \<Rightarrow>
                        s\<lparr>lss_longest_line := max (lss_longest_line s) (lf_longest_line lf),
                          lss_basename_width := max (lss_basename_width s) (length (lf_unique_path lf)),
                          lss_filename_width := max (lss_filename_width s) (length (lf_filename lf))\<rparr>)"

section \<open>The filter mask of a message\<close>

lemma end_of_message_loop_effect:
  assumes "n = 0 \<or> tfs_filter_count lfs (lf_index f) + n \<le> length (tfs_mask lfs)"
    and "n = 0 \<or> tfs_filter_count lfs (lf_index f) + n \<le> Suc (length (lf_lines lf))"
  shows "\<exists>lfs'. end_of_message_loop f lf msk n lfs = Inr lfs' \<and>
           tfs_filter_count lfs' (lf_index f) = tfs_filter_count lfs (lf_index f) + n \<and>
           length (tfs_mask lfs') = length (tfs_mask lfs) \<and>
           (\<forall>i < length (tfs_mask lfs). tfs_mask lfs' ! i =
              (if tfs_filter_count lfs (lf_index f) \<le> i \<and> i < tfs_filter_count lfs (lf_index f) + n
               then tfs_mask lfs ! i OR msk else tfs_mask lfs ! i)) \<and>
           tfs_message_matched lfs' = tfs_message_matched lfs \<and>
           tfs_lines_for_message lfs' = tfs_lines_for_message lfs"
  using assms
proof (induction n arbitrary: lfs)
  case 0
  then show ?case by auto
next
  case (Suc n)
  let ?p = "lf_index f"
  let ?c = "tfs_filter_count lfs ?p"
  let ?lfs1 = "lfs\<lparr>tfs_mask := (tfs_mask lfs)[?c := tfs_mask lfs ! ?c OR msk],
                  tfs_filter_count := (tfs_filter_count lfs)(?p := ?c + 1),
                  tfs_filter_hits :=
                    (if tfs_message_matched lfs ?p
                     then (tfs_filter_hits lfs)(?p := tfs_filter_hits lfs ?p + 1)
                     else tfs_filter_hits lfs)\<rparr>"
  from Suc.prems have b1: "?c + Suc n \<le> length (tfs_mask lfs)"
    and b2: "?c + Suc n \<le> Suc (length (lf_lines lf))" by auto
  have step: "end_of_message_loop f lf msk (Suc n) lfs = end_of_message_loop f lf msk n ?lfs1"
    using b1 b2 by (simp add: Let_def)
  have "\<exists>lfs'. end_of_message_loop f lf msk n ?lfs1 = Inr lfs' \<and>
           tfs_filter_count lfs' ?p = tfs_filter_count ?lfs1 ?p + n \<and>
           length (tfs_mask lfs') = length (tfs_mask ?lfs1) \<and>
           (\<forall>i < length (tfs_mask ?lfs1). tfs_mask lfs' ! i =
              (if tfs_filter_count ?lfs1 ?p \<le> i \<and> i < tfs_filter_count ?lfs1 ?p + n
               then tfs_mask ?lfs1 ! i OR msk else tfs_mask ?lfs1 ! i)) \<and>
           tfs_message_matched lfs' = tfs_message_matched ?lfs1 \<and>
           tfs_lines_for_message lfs' = tfs_lines_for_message ?lfs1"
    by (rule Suc.IH) (use b1 b2 in auto)
  then obtain lfs' where r: "end_of_message_loop f lf msk n ?lfs1 = Inr lfs'"
    and c: "tfs_filter_count lfs' ?p = Suc ?c + n"
    and l: "length (tfs_mask lfs') = length (tfs_mask lfs)"
    and m: "\<forall>i < length (tfs_mask lfs). tfs_mask lfs' ! i =
              (if Suc ?c \<le> i \<and> i < Suc ?c + n
               then (tfs_mask lfs)[?c := tfs_mask lfs ! ?c OR msk] ! i OR msk
               else (tfs_mask lfs)[?c := tfs_mask lfs ! ?c OR msk] ! i)"
    and mm: "tfs_message_matched lfs' = tfs_message_matched lfs"
    and lm: "tfs_lines_for_message lfs' = tfs_lines_for_message lfs"
    by auto
  have "\<forall>i < length (tfs_mask lfs). tfs_mask lfs' ! i =
              (if ?c \<le> i \<and> i < ?c + Suc n then tfs_mask lfs ! i OR msk else tfs_mask lfs ! i)"
  proof (intro allI impI)
    fix i assume i: "i < length (tfs_mask lfs)"
    show "tfs_mask lfs' ! i =
              (if ?c \<le> i \<and> i < ?c + Suc n then tfs_mask lfs ! i OR msk else tfs_mask lfs ! i)"
      using m i by (cases "i = ?c") (auto simp: nth_list_update)
  qed
  with r c l mm lm step show ?case by simp
qed

lemma end_of_message_effect:
  assumes "tfs_lines_for_message lfs (lf_index f) = 0 \<or>
           tfs_filter_count lfs (lf_index f) + tfs_lines_for_message lfs (lf_index f)
             \<le> length (tfs_mask lfs)"
    and "tfs_lines_for_message lfs (lf_index f) = 0 \<or>
         tfs_filter_count lfs (lf_index f) + tfs_lines_for_message lfs (lf_index f)
           \<le> Suc (length (lf_lines lf))"
  shows "\<exists>lfs'. end_of_message f lf lfs = Inr lfs' \<and>
           tfs_filter_count lfs' (lf_index f) =
             tfs_filter_count lfs (lf_index f) + tfs_lines_for_message lfs (lf_index f) \<and>
           length (tfs_mask lfs') = length (tfs_mask lfs) \<and>
           (\<forall>i < length (tfs_mask lfs). tfs_mask lfs' ! i =
              (if tfs_filter_count lfs (lf_index f) \<le> i \<and>
                  i < tfs_filter_count lfs (lf_index f) + tfs_lines_for_message lfs (lf_index f)
               then tfs_mask lfs ! i OR
                    push_bit (lf_index f) (if tfs_message_matched lfs (lf_index f) then 1 else 0)
               else tfs_mask lfs ! i)) \<and>
           tfs_message_matched lfs' (lf_index f) = False \<and>
           tfs_lines_for_message lfs' (lf_index f) = 0"
proof -
  let ?msk = "push_bit (lf_index f) (if tfs_message_matched lfs (lf_index f) then 1 else 0 :: 32 word)"
  from end_of_message_loop_effect [OF assms, of ?msk]
  obtain l1 where r: "end_of_message_loop f lf ?msk (tfs_lines_for_message lfs (lf_index f)) lfs = Inr l1"
    and c: "tfs_filter_count l1 (lf_index f) =
              tfs_filter_count lfs (lf_index f) + tfs_lines_for_message lfs (lf_index f)"
    and l: "length (tfs_mask l1) = length (tfs_mask lfs)"
    and m: "\<forall>i < length (tfs_mask lfs). tfs_mask l1 ! i =
              (if tfs_filter_count lfs (lf_index f) \<le> i \<and>
                  i < tfs_filter_count lfs (lf_index f) + tfs_lines_for_message lfs (lf_index f)
               then tfs_mask lfs ! i OR ?msk else tfs_mask lfs ! i)"
    by blast
  show ?thesis
    using r c l m by (simp add: end_of_message_def Let_def)
qed

lemma add_lines_continued:
  assumes "\<forall>(ll, b) \<in> set conts. ll_continued ll"
  shows "\<exists>lfs'. add_lines f lf lfs conts = Inr lfs' \<and>
           tfs_mask lfs' = tfs_mask lfs \<and>
           tfs_filter_count lfs' = tfs_filter_count lfs \<and>
           tfs_message_matched lfs' (lf_index f) =
             (tfs_message_matched lfs (lf_index f) \<or> (\<exists>(ll, b) \<in> set conts. matches f lf ll b)) \<and>
           tfs_lines_for_message lfs' (lf_index f) =
             tfs_lines_for_message lfs (lf_index f) + length conts"
  using assms
proof (induction conts arbitrary: lfs)
  case Nil
  then show ?case by simp
next
  case (Cons x conts)
  obtain ll b where x: "x = (ll, b)" by (cases x)
  let ?l1 = "lfs\<lparr>tfs_message_matched :=
                 (tfs_message_matched lfs)(lf_index f := tfs_message_matched lfs (lf_index f) \<or> matches f lf ll b),
               tfs_lines_for_message :=
                 (tfs_lines_for_message lfs)(lf_index f := tfs_lines_for_message lfs (lf_index f) + 1)\<rparr>"
  from Cons.prems x have cont: "ll_continued ll" and rest: "\<forall>(ll, b) \<in> set conts. ll_continued ll"
    by auto
  have a: "add_line f lf lfs ll b = Inr ?l1"
    using cont by (simp add: add_line_def Let_def)
  from Cons.IH [OF rest, of ?l1] a x show ?case
    by auto
qed

lemma bit_or_filter_bit:
  "p < 32 \<Longrightarrow> bit (w OR push_bit p (if m then 1 else 0 :: 32 word)) p = (bit w p \<or> m)"
  by (simp add: bit_or_iff bit_push_bit_iff)


text \<open>
  C7. A message is a head line (not a continuation) followed by continuation lines. Fed
  to a filter in slot \<open>p < 32\<close> from any state whose masks have room for the message and
  whose bit \<open>p\<close> is still clear on the lines of the message, \<open>add_line\<close> on the head
  line first ends the previous message (the count reaches \<open>base\<close>, the accumulator
  holds the new line alone), and once \<open>end_of_message\<close> has run for the message, bit
  \<open>p\<close> of the mask of every line of the message is set iff the filter matched at least
  one line of the message. Both calls return.
\<close>

theorem end_of_message_mask:
  assumes p: "lf_index f < 32"
    and head: "\<not> ll_continued head"
    and conts: "\<forall>(ll, b) \<in> set conts. ll_continued ll"
    and base: "base = tfs_filter_count lfs (lf_index f) + tfs_lines_for_message lfs (lf_index f)"
    and room_mask: "base + Suc (length conts) \<le> length (tfs_mask lfs)"
    and room_file: "base + length conts \<le> length (lf_lines lf)"
    and fresh: "\<forall>k \<le> length conts. \<not> bit (tfs_mask lfs ! (base + k)) (lf_index f)"
  shows "\<exists>lfs0 lfs1 lfs2 lfs3.
           end_of_message f lf lfs = Inr lfs0 \<and>
           add_line f lf lfs head body = Inr lfs1 \<and>
           tfs_filter_count lfs1 (lf_index f) = base \<and>
           tfs_lines_for_message lfs1 (lf_index f) = 1 \<and>
           tfs_message_matched lfs1 (lf_index f) = matches f lf head body \<and>
           add_lines f lf lfs ((head, body) # conts) = Inr lfs2 \<and>
           end_of_message f lf lfs2 = Inr lfs3 \<and>
           tfs_filter_count lfs3 (lf_index f) = base + Suc (length conts) \<and>
           (\<forall>k \<le> length conts.
              bit (tfs_mask lfs3 ! (base + k)) (lf_index f) =
                (\<exists>(ll, b) \<in> set ((head, body) # conts). matches f lf ll b))"
proof -
  let ?p = "lf_index f"
  have e0: "\<exists>lfs'. end_of_message f lf lfs = Inr lfs' \<and>
           tfs_filter_count lfs' ?p = tfs_filter_count lfs ?p + tfs_lines_for_message lfs ?p \<and>
           length (tfs_mask lfs') = length (tfs_mask lfs) \<and>
           (\<forall>i < length (tfs_mask lfs). tfs_mask lfs' ! i =
              (if tfs_filter_count lfs ?p \<le> i \<and>
                  i < tfs_filter_count lfs ?p + tfs_lines_for_message lfs ?p
               then tfs_mask lfs ! i OR
                    push_bit ?p (if tfs_message_matched lfs ?p then 1 else 0)
               else tfs_mask lfs ! i)) \<and>
           tfs_message_matched lfs' ?p = False \<and>
           tfs_lines_for_message lfs' ?p = 0"
    by (rule end_of_message_effect) (use base room_mask room_file in auto)
  then obtain lfs0 where r0: "end_of_message f lf lfs = Inr lfs0"
    and c0: "tfs_filter_count lfs0 ?p = base"
    and l0: "length (tfs_mask lfs0) = length (tfs_mask lfs)"
    and m0: "\<forall>i < length (tfs_mask lfs). base \<le> i \<longrightarrow> tfs_mask lfs0 ! i = tfs_mask lfs ! i"
    and mm0: "tfs_message_matched lfs0 ?p = False"
    and lm0: "tfs_lines_for_message lfs0 ?p = 0"
    using base by auto
  define lfs1 where "lfs1 = lfs0\<lparr>tfs_message_matched :=
                 (tfs_message_matched lfs0)(?p := tfs_message_matched lfs0 ?p \<or> matches f lf head body),
               tfs_lines_for_message :=
                 (tfs_lines_for_message lfs0)(?p := tfs_lines_for_message lfs0 ?p + 1)\<rparr>"
  have r1: "add_line f lf lfs head body = Inr lfs1"
    using head r0 by (simp add: add_line_def Let_def lfs1_def)
  have f1: "tfs_filter_count lfs1 ?p = base" "tfs_lines_for_message lfs1 ?p = 1"
    "tfs_message_matched lfs1 ?p = matches f lf head body" "tfs_mask lfs1 = tfs_mask lfs0"
    using c0 mm0 lm0 by (simp_all add: lfs1_def)
  from add_lines_continued [OF conts, of f lf lfs1]
  obtain lfs2 where r2: "add_lines f lf lfs1 conts = Inr lfs2"
    and k2': "tfs_mask lfs2 = tfs_mask lfs1"
    and c2': "tfs_filter_count lfs2 = tfs_filter_count lfs1"
    and mm2': "tfs_message_matched lfs2 ?p =
                (tfs_message_matched lfs1 ?p \<or> (\<exists>(ll, b) \<in> set conts. matches f lf ll b))"
    and lm2': "tfs_lines_for_message lfs2 ?p = tfs_lines_for_message lfs1 ?p + length conts"
    by blast
  have k2: "tfs_mask lfs2 = tfs_mask lfs0"
    and c2: "tfs_filter_count lfs2 ?p = base"
    and mm2: "tfs_message_matched lfs2 ?p =
                (matches f lf head body \<or> (\<exists>(ll, b) \<in> set conts. matches f lf ll b))"
    and lm2: "tfs_lines_for_message lfs2 ?p = Suc (length conts)"
    using f1 k2' c2' mm2' lm2' by simp_all
  have r2': "add_lines f lf lfs ((head, body) # conts) = Inr lfs2"
    using r1 r2 by simp
  have e3: "\<exists>lfs'. end_of_message f lf lfs2 = Inr lfs' \<and>
           tfs_filter_count lfs' ?p = tfs_filter_count lfs2 ?p + tfs_lines_for_message lfs2 ?p \<and>
           length (tfs_mask lfs') = length (tfs_mask lfs2) \<and>
           (\<forall>i < length (tfs_mask lfs2). tfs_mask lfs' ! i =
              (if tfs_filter_count lfs2 ?p \<le> i \<and>
                  i < tfs_filter_count lfs2 ?p + tfs_lines_for_message lfs2 ?p
               then tfs_mask lfs2 ! i OR
                    push_bit ?p (if tfs_message_matched lfs2 ?p then 1 else 0)
               else tfs_mask lfs2 ! i)) \<and>
           tfs_message_matched lfs' ?p = False \<and>
           tfs_lines_for_message lfs' ?p = 0"
    by (rule end_of_message_effect) (use c2 lm2 k2 l0 room_mask room_file in auto)
  then obtain lfs3 where r3: "end_of_message f lf lfs2 = Inr lfs3"
    and c3: "tfs_filter_count lfs3 ?p = base + Suc (length conts)"
    and m3: "\<forall>i < length (tfs_mask lfs). base \<le> i \<and> i < base + Suc (length conts) \<longrightarrow>
               tfs_mask lfs3 ! i = tfs_mask lfs0 ! i OR
                    push_bit ?p (if tfs_message_matched lfs2 ?p then 1 else 0)"
    using c2 lm2 k2 l0 by auto
  have bits: "\<forall>k \<le> length conts.
              bit (tfs_mask lfs3 ! (base + k)) ?p =
                (\<exists>(ll, b) \<in> set ((head, body) # conts). matches f lf ll b)"
  proof (intro allI impI)
    fix k assume k: "k \<le> length conts"
    then have i: "base + k < length (tfs_mask lfs)" using room_mask by simp
    have "tfs_mask lfs3 ! (base + k) = tfs_mask lfs ! (base + k) OR
                    push_bit ?p (if tfs_message_matched lfs2 ?p then 1 else 0)"
      using m3 m0 i k by simp
    then have "bit (tfs_mask lfs3 ! (base + k)) ?p =
                 (bit (tfs_mask lfs ! (base + k)) ?p \<or> tfs_message_matched lfs2 ?p)"
      using p by (simp add: bit_or_filter_bit)
    with fresh k mm2
    show "bit (tfs_mask lfs3 ! (base + k)) ?p =
                (\<exists>(ll, b) \<in> set ((head, body) # conts). matches f lf ll b)"
      by simp
  qed
  from r0 r1 f1 r2' r3 c3 bits show ?thesis by blast
qed

theorem end_of_message_mask_witness:
  "\<exists>lfs2 lfs3.
     add_lines err_filter msg_file (fresh_filter_state 3)
       [(msg_head, ''ERR disk''), (msg_cont, '' at sda''), (msg_cont, '' retry'')] = Inr lfs2 \<and>
     end_of_message err_filter msg_file lfs2 = Inr lfs3 \<and>
     tfs_filter_count lfs3 2 = 3 \<and>
     bit (tfs_mask lfs3 ! 0) 2 \<and> bit (tfs_mask lfs3 ! 1) 2 \<and> bit (tfs_mask lfs3 ! 2) 2"
proof -
  have "\<exists>lfs0 lfs1 lfs2 lfs3.
           end_of_message err_filter msg_file (fresh_filter_state 3) = Inr lfs0 \<and>
           add_line err_filter msg_file (fresh_filter_state 3) msg_head ''ERR disk'' = Inr lfs1 \<and>
           tfs_filter_count lfs1 (lf_index err_filter) = 0 \<and>
           tfs_lines_for_message lfs1 (lf_index err_filter) = 1 \<and>
           tfs_message_matched lfs1 (lf_index err_filter) =
             matches err_filter msg_file msg_head ''ERR disk'' \<and>
           add_lines err_filter msg_file (fresh_filter_state 3)
             ((msg_head, ''ERR disk'') # [(msg_cont, '' at sda''), (msg_cont, '' retry'')]) = Inr lfs2 \<and>
           end_of_message err_filter msg_file lfs2 = Inr lfs3 \<and>
           tfs_filter_count lfs3 (lf_index err_filter) =
             0 + Suc (length [(msg_cont, '' at sda''), (msg_cont, '' retry'')]) \<and>
           (\<forall>k \<le> length [(msg_cont, '' at sda''), (msg_cont, '' retry'')].
              bit (tfs_mask lfs3 ! (0 + k)) (lf_index err_filter) =
                (\<exists>(ll, b) \<in> set ((msg_head, ''ERR disk'') #
                     [(msg_cont, '' at sda''), (msg_cont, '' retry'')]).
                   matches err_filter msg_file ll b))"
    by (rule end_of_message_mask)
       (simp_all add: err_filter_def msg_head_def msg_cont_def msg_file_def fresh_filter_state_def)
  then obtain lfs2 lfs3 where
    a: "add_lines err_filter msg_file (fresh_filter_state 3)
             [(msg_head, ''ERR disk''), (msg_cont, '' at sda''), (msg_cont, '' retry'')] = Inr lfs2"
    and b: "end_of_message err_filter msg_file lfs2 = Inr lfs3"
    and c: "tfs_filter_count lfs3 (lf_index err_filter) = 3"
    and d: "\<forall>k \<le> 2. bit (tfs_mask lfs3 ! k) (lf_index err_filter) =
                (\<exists>(ll, b) \<in> set [(msg_head, ''ERR disk''), (msg_cont, '' at sda''), (msg_cont, '' retry'')].
                   matches err_filter msg_file ll b)"
    by auto
  have i: "lf_index err_filter = 2" by (simp add: err_filter_def)
  have m: "\<exists>(ll, b) \<in> set [(msg_head, ''ERR disk''), (msg_cont, '' at sda''), (msg_cont, '' retry'')].
                   matches err_filter msg_file ll b"
    by (simp add: err_filter_def)
  from d m i have "bit (tfs_mask lfs3 ! 0) 2" "bit (tfs_mask lfs3 ! 1) 2" "bit (tfs_mask lfs3 ! 2) 2"
    by simp_all
  with a b c i show ?thesis by auto
qed


section \<open>The location history beyond the last row\<close>

text \<open>
  C9. For a row \<open>top_line\<close> that is greater than or equal to
  \<^verbatim>\<open>text_line_count()\<close>, \<open>loc_history_append\<close> returns the history it was given:
  nothing is appended, nothing is truncated and the cursor stays where it was.
\<close>

theorem loc_history_append_beyond_end:
  assumes "int (text_line_count s) \<le> sint top_line"
  shows "loc_history_append s top_line h = Inr h"
proof -
  have "0 \<le> sint top_line" using assms by linarith
  moreover have "sint top_line < 2 ^ 31" using sint_lt [of top_line] by simp
  ultimately have "sint top_line mod 2 ^ 64 = sint top_line" by simp
  moreover have "text_line_count s \<le> nat (sint top_line)" using assms by linarith
  ultimately show ?thesis by (simp add: loc_history_append_def)
qed

theorem loc_history_append_beyond_end_witness:
  "int (text_line_count (source_of [] [0, 1] [0, 1])) \<le> sint (2 :: 32 word) \<and>
   loc_history_append (source_of [] [0, 1] [0, 1]) 2
     \<lparr>llh_history = [7, 8, 9], lh_history_position = 1, llh_max_size = 100\<rparr> =
   Inr \<lparr>llh_history = [7, 8, 9], lh_history_position = 1, llh_max_size = 100\<rparr>"
proof -
  have h: "int (text_line_count (source_of [] [0, 1] [0, 1])) \<le> sint (2 :: 32 word)"
    by (simp add: text_line_count_def source_of_def)
  from loc_history_append_beyond_end [OF h] h show ?thesis by simp
qed

lemma loc_history_append_inside:
  "loc_history_append (source_of [] [0, 1] [0, 1]) 1
     \<lparr>llh_history = [7, 8, 9], lh_history_position = 1, llh_max_size = 100\<rparr> =
   Inr \<lparr>llh_history = [7, 8, 1], lh_history_position = 0, llh_max_size = 100\<rparr>"
  by (simp add: loc_history_append_def text_line_count_def source_of_def at_def nth_opt_def
        ring_push_back_def)


section \<open>The alternate-row style of the timestamp\<close>

text \<open>
  C8 as stated fails: a continuation line stamped 0 seconds satisfies
  \<^verbatim>\<open>(epoch_sec / 300) mod 2 == 0\<close> and gets no alternate-row style.
\<close>

theorem text_attrs_alt_row_counterexample:
  "ll_time ((line_at 0)\<lparr>ll_continued := True\<rparr>) sdiv 300 smod 2 = 0 \<and>
   alt_row_attr role_attrs [timestamp_attr]
     \<notin> set (text_attrs_for_line_time role_attrs (file_of ''A'' [line_at 0, (line_at 0)\<lparr>ll_continued := True\<rparr>])
             ((line_at 0)\<lparr>ll_continued := True\<rparr>) [timestamp_attr])"
  by (simp add: text_attrs_for_line_time_def line_at_def file_of_def alt_row_attr_def
        timestamp_attr_def signed_divide_int_def signed_modulo_int_def)

text \<open>
  C8, amended. A row whose line satisfies \<^verbatim>\<open>(epoch_sec / 300) % 2 == 0\<close>, whose
  file's clock is not adjusted, whose line is not a continuation and whose attributes
  hold a timestamp range gets the alternate-row role on that range.
\<close>

theorem text_attrs_alt_row:
  assumes "ll_time token_line sdiv 300 smod 2 = 0"
    and "\<not> lf_time_adjusted token_file"
    and "\<not> ll_continued token_line"
    and "lr_end (find_string_attr_range value_out L_TIMESTAMP) \<noteq> -1"
  shows "alt_row_attr attrs_for_role value_out
           \<in> set (text_attrs_for_line_time attrs_for_role token_file token_line value_out)"
  using assms
  by (simp add: text_attrs_for_line_time_def style_time_range_def alt_row_attr_def Let_def)

theorem text_attrs_alt_row_witness:
  "ll_time (line_at 0) sdiv 300 smod 2 = 0 \<and>
   \<not> lf_time_adjusted (file_of ''A'' [line_at 0]) \<and>
   \<not> ll_continued (line_at 0) \<and>
   lr_end (find_string_attr_range [timestamp_attr] L_TIMESTAMP) \<noteq> -1 \<and>
   alt_row_attr role_attrs [timestamp_attr]
     \<in> set (text_attrs_for_line_time role_attrs (file_of ''A'' [line_at 0]) (line_at 0) [timestamp_attr])"
proof -
  have a: "ll_time (line_at 0) sdiv 300 smod 2 = 0"
    by (simp add: line_at_def signed_divide_int_def signed_modulo_int_def)
  have b: "\<not> lf_time_adjusted (file_of ''A'' [line_at 0])" by (simp add: file_of_def)
  have c: "\<not> ll_continued (line_at 0)" by (simp add: line_at_def)
  have d: "lr_end (find_string_attr_range [timestamp_attr] L_TIMESTAMP) \<noteq> -1"
    by (simp add: timestamp_attr_def)
  from text_attrs_alt_row [OF a b c d] a b c d show ?thesis by simp
qed



section \<open>Warning and error bookmarks\<close>

lemma set_insert_once: "set (insert_once vl bv) = insert vl (set bv)"
  by (auto simp: insert_once_def set_insort_key)

lemma erase_marks_set_mark: "erase_marks (set_mark files slot cl) = erase_marks files"
proof (cases "ld_file (files ! slot)")
  case None
  then show ?thesis by (simp add: set_mark_def)
next
  case (Some lf)
  let ?e = "\<lambda>ll. ll\<lparr>ll_mark := False\<rparr>"
  have l: "map ?e ((lf_lines lf)[cl := (lf_lines lf ! cl)\<lparr>ll_mark := True\<rparr>]) = map ?e (lf_lines lf)"
  proof (rule nth_equalityI)
    show "length (map ?e ((lf_lines lf)[cl := (lf_lines lf ! cl)\<lparr>ll_mark := True\<rparr>])) =
          length (map ?e (lf_lines lf))" by simp
  next
    fix i assume "i < length (map ?e ((lf_lines lf)[cl := (lf_lines lf ! cl)\<lparr>ll_mark := True\<rparr>]))"
    then show "map ?e ((lf_lines lf)[cl := (lf_lines lf ! cl)\<lparr>ll_mark := True\<rparr>]) ! i =
               map ?e (lf_lines lf) ! i"
      by (cases "i = cl") simp_all
  qed
  show ?thesis
  proof (cases "slot < length files")
    case True
    then show ?thesis
      using Some l by (simp add: set_mark_def erase_marks_def map_update list_update_same_conv)
  next
    case False
    then show ?thesis using Some by (simp add: set_mark_def not_less list_update_beyond)
  qed
qed

lemma mark_level_warnings:
  "set (mark_level vl line bm BM_WARNINGS) =
     set (bm BM_WARNINGS) \<union> (if \<not> ll_continued line \<and> ll_level line = LEVEL_WARNING then {vl} else {})"
  by (cases "ll_level line") (simp_all add: mark_level_def set_insert_once)

lemma mark_level_errors:
  "set (mark_level vl line bm BM_ERRORS) =
     set (bm BM_ERRORS) \<union>
       (if \<not> ll_continued line \<and> ll_level line \<in> {LEVEL_ERROR, LEVEL_CRITICAL, LEVEL_FATAL}
        then {vl} else {})"
  by (cases "ll_level line") (simp_all add: mark_level_def set_insert_once)

lemma apply_user_marks_frame:
  "apply_user_marks marks vl cl (bm, files) = (bm', files') \<Longrightarrow>
     erase_marks files' = erase_marks files \<and> (\<forall>t. t \<notin> fst ` set marks \<longrightarrow> bm' t = bm t)"
proof (induction marks arbitrary: bm files)
  case Nil
  then show ?case by simp
next
  case (Cons m marks)
  obtain t ms where m: "m = (t, ms)" by (cases m)
  show ?case
  proof (cases "cl \<in> set ms")
    case True
    let ?bm1 = "bm(t := insert_once vl (bm t))"
    let ?f1 = "if t = BM_USER then set_mark files (cl div MAX_LINES_PER_FILE) (cl mod MAX_LINES_PER_FILE) else files"
    from Cons.prems m True have "apply_user_marks marks vl cl (?bm1, ?f1) = (bm', files')" by simp
    from Cons.IH [OF this] m show ?thesis by (auto simp: erase_marks_set_mark)
  next
    case False
    with Cons.prems m have "apply_user_marks marks vl cl (bm, files) = (bm', files')" by simp
    from Cons.IH [OF this] m show ?thesis by auto
  qed
qed

lemma find_data_erase_marks:
  "find_data (erase_marks files) cl =
     map_option (\<lambda>(ld, n). (ld\<lparr>ld_file :=
                  map_option (\<lambda>lf. lf\<lparr>lf_lines := map (\<lambda>ll. ll\<lparr>ll_mark := False\<rparr>) (lf_lines lf)\<rparr>)
                    (ld_file ld)\<rparr>, n)) (find_data files cl)"
  by (simp add: find_data_def erase_marks_def nth_opt_def)

lemma find_line_erase_marks:
  "find_line (erase_marks files) cl =
     map_sum id (map_option (\<lambda>ll. ll\<lparr>ll_mark := False\<rparr>)) (find_line files cl)"
  by (auto simp: find_line_def find_data_erase_marks nth_opt_def split: option.splits)

lemma same_lines_modulo_marks:
  assumes "erase_marks files' = erase_marks files"
    and "find_line files' cl = Inr (Some ll')"
  shows "\<exists>ll. find_line files cl = Inr (Some ll) \<and> ll_continued ll = ll_continued ll' \<and>
              ll_level ll = ll_level ll'"
proof -
  have "map_sum id (map_option (\<lambda>ll. ll\<lparr>ll_mark := False\<rparr>)) (find_line files cl) =
        map_sum id (map_option (\<lambda>ll. ll\<lparr>ll_mark := False\<rparr>)) (find_line files' cl)"
    using assms(1) find_line_erase_marks [of files cl] find_line_erase_marks [of files' cl] by simp
  with assms(2) obtain ll where a: "find_line files cl = Inr (Some ll)"
    and b: "ll\<lparr>ll_mark := False\<rparr> = ll'\<lparr>ll_mark := False\<rparr>"
    by (cases "find_line files cl") (auto simp: map_option_case split: option.splits)
  from b have "ll_continued (ll\<lparr>ll_mark := False\<rparr>) = ll_continued (ll'\<lparr>ll_mark := False\<rparr>)"
    "ll_level (ll\<lparr>ll_mark := False\<rparr>) = ll_level (ll'\<lparr>ll_mark := False\<rparr>)" by simp_all
  with a show ?thesis by simp
qed

lemma update_marks_row_effect:
  assumes r: "update_marks_row s vl (bm, files, last_file) = Inr (bm', files', last_file')"
    and e: "erase_marks files = erase_marks (lss_files s)"
    and w: "BM_WARNINGS \<notin> fst ` set (lss_user_marks s)"
    and x: "BM_ERRORS \<notin> fst ` set (lss_user_marks s)"
  shows "erase_marks files' = erase_marks (lss_files s) \<and>
         set (bm' BM_WARNINGS) = set (bm BM_WARNINGS) \<union> (if is_warning_row s vl then {vl} else {}) \<and>
         set (bm' BM_ERRORS) = set (bm BM_ERRORS) \<union> (if is_error_row s vl then {vl} else {})"
proof -
  from r obtain orig_cl where at: "at s vl = Some orig_cl"
    by (auto simp: update_marks_row_def split: option.splits)
  from r at obtain ld cl where fd: "find_data files orig_cl = Some (ld, cl)"
    by (auto simp: update_marks_row_def split: option.splits)
  from r at fd obtain lf where lf: "ld_file ld = Some lf"
    by (auto simp: update_marks_row_def split: option.splits)
  from r at fd lf obtain line where line: "nth_opt (lf_lines lf) cl = Some line"
    by (auto simp: update_marks_row_def split: option.splits)
  obtain bm1 files1 where um: "apply_user_marks (lss_user_marks s) vl orig_cl (bm, files) = (bm1, files1)"
    by (cases "apply_user_marks (lss_user_marks s) vl orig_cl (bm, files)")
  from apply_user_marks_frame [OF um] e w x
  have e1: "erase_marks files1 = erase_marks (lss_files s)"
    and w1: "bm1 BM_WARNINGS = bm BM_WARNINGS" and x1: "bm1 BM_ERRORS = bm BM_ERRORS"
    by auto
  have fl: "find_line files orig_cl = Inr (Some line)"
    using fd lf line by (simp add: find_line_def)
  from same_lines_modulo_marks [OF e fl] obtain ll where
    ll: "find_line (lss_files s) orig_cl = Inr (Some ll)"
    and c: "ll_continued ll = ll_continued line" and l: "ll_level ll = ll_level line"
    by blast
  have rl: "row_line s vl = Some ll" using at ll by (simp add: row_line_def)
  define bm2 where "bm2 = (if Some (orig_cl div MAX_LINES_PER_FILE) \<noteq> last_file
                            then bm1(BM_FILES := insert_once vl (bm1 BM_FILES)) else bm1)"
  have b2: "bm2 BM_WARNINGS = bm BM_WARNINGS" "bm2 BM_ERRORS = bm BM_ERRORS"
    using w1 x1 by (simp_all add: bm2_def)
  have res: "files' = files1 \<and> bm' = mark_level vl line bm2"
    using r at fd lf line um by (auto simp: update_marks_row_def Let_def bm2_def)
  then have f': "files' = files1" by simp
  have bmw: "set (bm' BM_WARNINGS) = set (bm BM_WARNINGS) \<union> (if is_warning_row s vl then {vl} else {})"
    using res b2 rl c l by (simp add: is_warning_row_def mark_level_warnings)
  have bme: "set (bm' BM_ERRORS) = set (bm BM_ERRORS) \<union> (if is_error_row s vl then {vl} else {})"
    using res b2 rl c l by (simp add: is_error_row_def mark_level_errors)
  from e1 f' bmw bme show ?thesis by simp
qed

lemma update_marks_rows_effect:
  assumes "update_marks_rows s rows (bm, files, last_file) = Inr (bm', files', last_file')"
    and "erase_marks files = erase_marks (lss_files s)"
    and "BM_WARNINGS \<notin> fst ` set (lss_user_marks s)"
    and "BM_ERRORS \<notin> fst ` set (lss_user_marks s)"
  shows "set (bm' BM_WARNINGS) = set (bm BM_WARNINGS) \<union> {vl \<in> set rows. is_warning_row s vl} \<and>
         set (bm' BM_ERRORS) = set (bm BM_ERRORS) \<union> {vl \<in> set rows. is_error_row s vl}"
  using assms
proof (induction rows arbitrary: bm files last_file)
  case Nil
  then show ?case by simp
next
  case (Cons vl rows)
  from Cons.prems(1) obtain bm1 files1 last1 where
    r1: "update_marks_row s vl (bm, files, last_file) = Inr (bm1, files1, last1)"
    and r2: "update_marks_rows s rows (bm1, files1, last1) = Inr (bm', files', last_file')"
    by (cases "update_marks_row s vl (bm, files, last_file)") auto
  from update_marks_row_effect [OF r1 Cons.prems(2) Cons.prems(3) Cons.prems(4)]
  have e1: "erase_marks files1 = erase_marks (lss_files s)"
    and w1: "set (bm1 BM_WARNINGS) = set (bm BM_WARNINGS) \<union> (if is_warning_row s vl then {vl} else {})"
    and x1: "set (bm1 BM_ERRORS) = set (bm BM_ERRORS) \<union> (if is_error_row s vl then {vl} else {})"
    by simp_all
  from Cons.IH [OF r2 e1 Cons.prems(3) Cons.prems(4)] w1 x1 show ?case by auto
qed

lemma clear_marks:
  "t \<in> set ts \<Longrightarrow> foldl (\<lambda>b t. b(t := [])) bm ts t = []"
  by (induction ts arbitrary: bm rule: rev_induct) auto

lemma int_bound_of_size:
  assumes "n < 2 ^ 31"
  shows "nat (sint (word_of_nat n :: 32 word)) = n"
proof -
  have "sint (word_of_nat n :: 32 word) = signed_take_bit 31 (int n)"
    by (simp add: signed_of_nat)
  also have "\<dots> = int n"
    by (rule signed_take_bit_int_eq_self) (use assms in auto)
  finally show ?thesis by simp
qed


lemma text_update_marks_levels_returned:
  assumes "text_update_marks s bm = Inr (bm', s')"
    and "length (lss_filtered_index s) < 2 ^ 31"
    and "BM_WARNINGS \<notin> fst ` set (lss_user_marks s)"
    and "BM_ERRORS \<notin> fst ` set (lss_user_marks s)"
  shows "set (bm' BM_WARNINGS) =
           {vl. vl < length (lss_filtered_index s) \<and> is_warning_row s vl} \<and>
         set (bm' BM_ERRORS) =
           {vl. vl < length (lss_filtered_index s) \<and> is_error_row s vl}"
proof -
  let ?bm0 = "foldl (\<lambda>b t. b(t := [])) bm ([BM_WARNINGS, BM_ERRORS, BM_FILES] @ map fst (lss_user_marks s))"
  let ?n = "length (lss_filtered_index s)"
  have n: "nat (sint (word_of_nat ?n :: 32 word)) = ?n"
    by (rule int_bound_of_size) (rule assms(2))
  from assms(1) n obtain files' last' where
    r: "update_marks_rows s [0..<?n] (?bm0, lss_files s, None) = Inr (bm', files', last')"
    by (auto simp: text_update_marks_def Let_def split: sum.splits)
  have c: "?bm0 BM_WARNINGS = []" "?bm0 BM_ERRORS = []"
    by (rule clear_marks, simp)+
  from update_marks_rows_effect [OF r refl assms(3) assms(4)] c
  show ?thesis by auto
qed




lemma find_line_SomeD:
  assumes "find_line files cl = Inr (Some ll)"
  shows "\<exists>ld n lf. find_data files cl = Some (ld, n) \<and> ld_file ld = Some lf \<and>
                   nth_opt (lf_lines lf) n = Some ll"
  using assms by (auto simp: find_line_def split: option.splits)

lemma update_marks_row_returns:
  assumes rl: "row_line s vl \<noteq> None"
    and e: "erase_marks files = erase_marks (lss_files s)"
  shows "\<exists>bm' files' last_file'.
           update_marks_row s vl (bm, files, last_file) = Inr (bm', files', last_file') \<and>
           erase_marks files' = erase_marks (lss_files s)"
proof -
  from rl obtain cl ll where at: "at s vl = Some cl"
    and fl: "find_line (lss_files s) cl = Inr (Some ll)"
    by (auto simp: row_line_def split: option.splits sum.splits)
  from same_lines_modulo_marks [OF e [symmetric] fl]
  obtain ll' where fl': "find_line files cl = Inr (Some ll')" by blast
  from find_line_SomeD [OF fl'] obtain ld n lf where
    fd: "find_data files cl = Some (ld, n)" and lf: "ld_file ld = Some lf"
    and ln: "nth_opt (lf_lines lf) n = Some ll'" by blast
  obtain bm1 files1 where um: "apply_user_marks (lss_user_marks s) vl cl (bm, files) = (bm1, files1)"
    by (cases "apply_user_marks (lss_user_marks s) vl cl (bm, files)")
  from apply_user_marks_frame [OF um] e
  have e1: "erase_marks files1 = erase_marks (lss_files s)" by simp
  have "\<exists>bm' last_file'. update_marks_row s vl (bm, files, last_file) = Inr (bm', files1, last_file')"
    using at fd lf ln um by (simp add: update_marks_row_def Let_def)
  with e1 show ?thesis by blast
qed

lemma update_marks_rows_returns:
  assumes "\<forall>vl \<in> set rows. row_line s vl \<noteq> None"
    and "erase_marks files = erase_marks (lss_files s)"
  shows "\<exists>st'. update_marks_rows s rows (bm, files, last_file) = Inr st'"
  using assms
proof (induction rows arbitrary: bm files last_file)
  case Nil
  then show ?case by simp
next
  case (Cons vl rows)
  from Cons.prems(1) have rl: "row_line s vl \<noteq> None"
    and rest: "\<forall>vl \<in> set rows. row_line s vl \<noteq> None" by simp_all
  from update_marks_row_returns [OF rl Cons.prems(2)]
  obtain bm1 files1 last1 where
    r1: "update_marks_row s vl (bm, files, last_file) = Inr (bm1, files1, last1)"
    and e1: "erase_marks files1 = erase_marks (lss_files s)" by blast
  from Cons.IH [OF rest e1] obtain st' where
    "update_marks_rows s rows (bm1, files1, last1) = Inr st'" by blast
  with r1 show ?case by (cases st') simp
qed

lemma int_bound_le_size: "nat (sint (word_of_nat n :: 32 word)) \<le> n"
proof (cases "n < 2 ^ 31")
  case True
  then show ?thesis by (simp add: int_bound_of_size)
next
  case False
  have a: "sint (word_of_nat n :: 32 word) < 2 ^ 31"
    using sint_lt [of "word_of_nat n :: 32 word"] by simp
  from False have "(2 :: nat) ^ 31 \<le> n" by simp
  then have "int ((2 :: nat) ^ 31) \<le> int n" by (simp only: of_nat_le_iff)
  then have "(2 :: int) ^ 31 \<le> int n" by simp
  with a show ?thesis by linarith
qed

lemma text_update_marks_returns:
  assumes "rows_resolve s"
  shows "\<exists>bm' s'. text_update_marks s bm = Inr (bm', s')"
proof -
  let ?n = "length (lss_filtered_index s)"
  let ?rows = "[0..<nat (sint (word_of_nat ?n :: 32 word))]"
  let ?bm0 = "foldl (\<lambda>b t. b(t := [])) bm ([BM_WARNINGS, BM_ERRORS, BM_FILES] @ map fst (lss_user_marks s))"
  have "\<forall>vl \<in> set ?rows. row_line s vl \<noteq> None"
    using assms int_bound_le_size [of ?n] by (auto simp: rows_resolve_def list_all_iff)
  from update_marks_rows_returns [OF this refl, of ?bm0 None]
  obtain st' where "update_marks_rows s ?rows (?bm0, lss_files s, None) = Inr st'" by blast
  then show ?thesis
    by (cases st') (simp add: text_update_marks_def Let_def)
qed

text \<open>
  C10. For a view of fewer than \<open>2 ^ 31\<close> rows (the range of the \<^verbatim>\<open>int\<close> the loop
  counts in), each with a log line behind it, and user marks filed under other types
  than the two, \<open>text_update_marks\<close> returns, and it leaves as warning bookmarks exactly
  the rows whose line is not a continuation and has level WARNING, and as error bookmarks
  exactly the rows whose line is not a continuation and has level ERROR, CRITICAL or
  FATAL. A continuation row is in neither.
\<close>

theorem text_update_marks_levels:
  assumes "rows_resolve s"
    and "length (lss_filtered_index s) < 2 ^ 31"
    and "BM_WARNINGS \<notin> fst ` set (lss_user_marks s)"
    and "BM_ERRORS \<notin> fst ` set (lss_user_marks s)"
  shows "\<exists>bm' s'. text_update_marks s bm = Inr (bm', s') \<and>
           set (bm' BM_WARNINGS) =
             {vl. vl < length (lss_filtered_index s) \<and> is_warning_row s vl} \<and>
           set (bm' BM_ERRORS) =
             {vl. vl < length (lss_filtered_index s) \<and> is_error_row s vl}"
proof -
  from text_update_marks_returns [OF assms(1)] obtain bm' s' where
    r: "text_update_marks s bm = Inr (bm', s')" by blast
  from text_update_marks_levels_returned [OF r assms(2) assms(3) assms(4)] r show ?thesis by blast
qed

theorem text_update_marks_levels_witness:
  "rows_resolve marked_source \<and>
   (\<exists>bm' s'. text_update_marks marked_source (\<lambda>_. [9]) = Inr (bm', s') \<and>
     set (bm' BM_WARNINGS) =
       {vl. vl < length (lss_filtered_index marked_source) \<and> is_warning_row marked_source vl} \<and>
     set (bm' BM_ERRORS) =
       {vl. vl < length (lss_filtered_index marked_source) \<and> is_error_row marked_source vl}) \<and>
   is_warning_row marked_source 1 \<and> \<not> is_warning_row marked_source 2 \<and>
   is_error_row marked_source 3 \<and> \<not> is_error_row marked_source 2"
proof -
  have a: "rows_resolve marked_source" by code_simp
  have h2: "length (lss_filtered_index marked_source) < 2 ^ 31"
    and h3: "BM_WARNINGS \<notin> fst ` set (lss_user_marks marked_source)"
    and h4: "BM_ERRORS \<notin> fst ` set (lss_user_marks marked_source)"
    by (simp_all add: marked_source_def source_of_def)
  have r: "is_warning_row marked_source 1 \<and> \<not> is_warning_row marked_source 2 \<and>
            is_error_row marked_source 3 \<and> \<not> is_error_row marked_source 2"
    by code_simp
  from text_update_marks_levels [OF a h2 h3 h4, of "\<lambda>_. [9]"] r a show ?thesis by simp
qed

section \<open>Facts about rebuild\_index\<close>

subsection \<open>The polling loop, the merge and the filter loop\<close>

lemma poll_file_frame:
  assumes "poll_file env index files i ps = Inr (files', ps')"
  shows "length files' = length files \<and>
         (\<forall>j. j \<noteq> i \<longrightarrow> files' ! j = files ! j) \<and>
         (\<forall>j < length files. ld_lines_indexed (files' ! j) = ld_lines_indexed (files ! j) \<and>
                              ld_file_index (files' ! j) = ld_file_index (files ! j)) \<and>
         (ps_retval ps \<noteq> rr_no_change \<longrightarrow> ps_retval ps' \<noteq> rr_no_change)"
proof (cases "ld_file (files ! i)")
  case None
  with assms show ?thesis
    by (auto simp: poll_file_def Let_def force_full_def split: if_splits)
next
  case (Some lf)
  show ?thesis
  proof (cases "is_paused env")
    case True
    with assms Some show ?thesis by (auto simp: poll_file_def Let_def count_file_def)
  next
    case False
    obtain rb lf' lfs' where o: "lf_rebuild_index env lf (ld_filter_state (files ! i)) = (rb, lf', lfs')"
      by (cases "lf_rebuild_index env lf (ld_filter_state (files ! i))") auto
    let ?files1 = "files[i := (files ! i)\<lparr>ld_file := Some lf', ld_filter_state := lfs'\<rparr>]"
    from assms Some False o have f: "files' = ?files1"
      by (auto simp: poll_file_def Let_def split: logfile_rebuild_result_t.splits if_splits
            option.splits sum.splits)
    from assms Some False o have r: "ps_retval ps \<noteq> rr_no_change \<longrightarrow> ps_retval ps' \<noteq> rr_no_change"
      by (auto simp: poll_file_def Let_def count_file_def force_full_def
            split: logfile_rebuild_result_t.splits if_splits option.splits sum.splits)
    have "\<forall>j < length files. ld_lines_indexed (?files1 ! j) = ld_lines_indexed (files ! j) \<and>
                              ld_file_index (?files1 ! j) = ld_file_index (files ! j)"
    proof (intro allI impI)
      fix j assume "j < length files"
      then show "ld_lines_indexed (?files1 ! j) = ld_lines_indexed (files ! j) \<and>
                 ld_file_index (?files1 ! j) = ld_file_index (files ! j)"
        by (cases "j = i") simp_all
    qed
    with f r show ?thesis by simp
  qed
qed

lemma poll_file_reports:
  assumes "poll_file env index files i ps = Inr (files', ps')"
    and "\<not> is_paused env"
    and "reports env (files ! i) \<in> {Some RR_NEW_ORDER, Some RR_INVALID, Some RR_NEW_LINES}"
  shows "ps_retval ps' \<noteq> rr_no_change"
proof -
  from assms(3) obtain lf where lf: "ld_file (files ! i) = Some lf"
    by (auto simp: reports_def split: option.splits)
  obtain rb lf' lfs' where o: "lf_rebuild_index env lf (ld_filter_state (files ! i)) = (rb, lf', lfs')"
    by (cases "lf_rebuild_index env lf (ld_filter_state (files ! i))") auto
  from assms(3) lf o have rb: "rb = RR_NEW_ORDER \<or> rb = RR_INVALID \<or> rb = RR_NEW_LINES"
    by (auto simp: reports_def)
  from assms(1,2) lf o rb show ?thesis
    by (auto simp: poll_file_def Let_def count_file_def force_full_def
          split: if_splits option.splits sum.splits)
qed

lemma poll_files_frame:
  assumes "poll_files env index is (files, ps) = Inr (files', ps')"
  shows "length files' = length files \<and>
         (\<forall>j. j \<notin> set is \<longrightarrow> files' ! j = files ! j) \<and>
         (\<forall>j < length files. ld_lines_indexed (files' ! j) = ld_lines_indexed (files ! j) \<and>
                              ld_file_index (files' ! j) = ld_file_index (files ! j)) \<and>
         (ps_retval ps \<noteq> rr_no_change \<longrightarrow> ps_retval ps' \<noteq> rr_no_change)"
  using assms
proof (induction "is" arbitrary: files ps)
  case Nil
  then show ?case by simp
next
  case (Cons i rest)
  from Cons.prems obtain files1 ps1 where
    a: "poll_file env index files i ps = Inr (files1, ps1)"
    and b: "poll_files env index rest (files1, ps1) = Inr (files', ps')"
    by (cases "poll_file env index files i ps") auto
  from poll_file_frame [OF a] Cons.IH [OF b] show ?case by auto
qed

lemma poll_files_reports:
  assumes "poll_files env index is (files, ps) = Inr (files', ps')"
    and "\<not> is_paused env"
    and "distinct is"
    and "i \<in> set is"
    and "reports env (files ! i) \<in> {Some RR_NEW_ORDER, Some RR_INVALID, Some RR_NEW_LINES}"
  shows "ps_retval ps' \<noteq> rr_no_change"
  using assms
proof (induction "is" arbitrary: files ps)
  case Nil
  then show ?case by simp
next
  case (Cons j rest)
  from Cons.prems(1) obtain files1 ps1 where
    a: "poll_file env index files j ps = Inr (files1, ps1)"
    and b: "poll_files env index rest (files1, ps1) = Inr (files', ps')"
    by (cases "poll_file env index files j ps") auto
  show ?case
  proof (cases "i = j")
    case True
    with poll_file_reports [OF a Cons.prems(2)] Cons.prems(5)
    have "ps_retval ps1 \<noteq> rr_no_change" by simp
    with poll_files_frame [OF b] show ?thesis by simp
  next
    case False
    with Cons.prems have i: "i \<in> set rest" and d: "distinct rest" by auto
    from poll_file_frame [OF a] False have "files1 ! i = files ! i" by simp
    with Cons.prems(5) have "reports env (files1 ! i) \<in> {Some RR_NEW_ORDER, Some RR_INVALID, Some RR_NEW_LINES}"
      by simp
    from Cons.IH [OF b Cons.prems(2) d i this] show ?thesis .
  qed
qed

lemma rebuild_index_result:
  assumes "rebuild_index env s = Inr (r, s')"
  shows "r \<noteq> rr_full_rebuild \<and>
         (\<not> is_paused env \<and>
          (\<exists>ld \<in> set (lss_files s).
             reports env ld \<in> {Some RR_NEW_ORDER, Some RR_INVALID, Some RR_NEW_LINES})
          \<longrightarrow> r = rr_appended_lines)"
proof -
  let ?ps0 = "\<lparr>ps_force = lss_force_rebuild s,
               ps_retval = (if lss_force_rebuild s then rr_full_rebuild else rr_no_change),
               ps_file_count = 0, ps_total_lines = 0\<rparr>"
  from assms obtain files ps where
    p: "poll_files env (lss_index s) [0..<length (lss_files s)] (lss_files s, ?ps0) = Inr (files, ps)"
    by (auto simp: rebuild_index_def Let_def split: sum.splits)
  from assms p have r: "r = (if ps_retval ps = rr_full_rebuild then rr_appended_lines else ps_retval ps)"
    by (auto simp: rebuild_index_def Let_def never_force_def split: sum.splits if_splits)
  then have a: "r \<noteq> rr_full_rebuild" by auto
  have b: "r = rr_appended_lines"
    if np: "\<not> is_paused env"
    and ex: "\<exists>ld \<in> set (lss_files s).
             reports env ld \<in> {Some RR_NEW_ORDER, Some RR_INVALID, Some RR_NEW_LINES}"
  proof -
    from ex obtain i where i: "i < length (lss_files s)"
      and t: "reports env (lss_files s ! i) \<in> {Some RR_NEW_ORDER, Some RR_INVALID, Some RR_NEW_LINES}"
      by (auto simp: in_set_conv_nth)
    have "ps_retval ps \<noteq> rr_no_change"
      by (rule poll_files_reports [OF p np _ _ t]) (use i in auto)
    with r show ?thesis by (cases "ps_retval ps") auto
  qed
  from a b show ?thesis by blast
qed

lemma measure_step_frame:
  "lss_files (measure_step s ld) = lss_files s \<and> lss_index (measure_step s ld) = lss_index s \<and>
   lss_filtered_index (measure_step s ld) = lss_filtered_index s \<and>
   lss_filter_in_mask (measure_step s ld) = lss_filter_in_mask s \<and>
   lss_filter_out_mask (measure_step s ld) = lss_filter_out_mask s \<and>
   check_extra_filters (measure_step s ld) = check_extra_filters s"
  by (simp add: measure_step_def split: option.splits)

lemma foldl_measure_frame:
  "lss_files (foldl measure_step s lds) = lss_files s \<and>
   lss_index (foldl measure_step s lds) = lss_index s \<and>
   lss_filtered_index (foldl measure_step s lds) = lss_filtered_index s \<and>
   lss_filter_in_mask (foldl measure_step s lds) = lss_filter_in_mask s \<and>
   lss_filter_out_mask (foldl measure_step s lds) = lss_filter_out_mask s \<and>
   check_extra_filters (foldl measure_step s lds) = check_extra_filters s"
  by (induction lds arbitrary: s) (simp_all add: measure_step_frame)

lemma measure_files_frame:
  "lss_files (measure_files s) = lss_files s \<and> lss_index (measure_files s) = lss_index s \<and>
   lss_filtered_index (measure_files s) = lss_filtered_index s \<and>
   lss_filter_in_mask (measure_files s) = lss_filter_in_mask s \<and>
   lss_filter_out_mask (measure_files s) = lss_filter_out_mask s \<and>
   check_extra_filters (measure_files s) = check_extra_filters s"
proof -
  have "measure_files s = foldl measure_step s (lss_files s)"
    unfolding measure_files_def measure_step_def ..
  then show ?thesis by (simp add: foldl_measure_frame)
qed

lemma merge_loop_appends:
  "merge_loop files index = (files', index') \<Longrightarrow> \<exists>new. index' = index @ new"
proof (induction files index rule: merge_loop.induct)
  case (1 files index)
  show ?case
  proof (cases "kmerge_top (merge_heads files)")
    case None
    with "1.prems" show ?thesis by (simp add: merge_loop.simps)
  next
    case (Some h)
    obtain i ll where h: "h = (i, ll)" by (cases h)
    let ?ld = "files ! i"
    let ?files1 = "files[i := ?ld\<lparr>ld_lines_indexed := ld_lines_indexed ?ld + 1\<rparr>]"
    let ?index1 = "index @ [ld_file_index ?ld * MAX_LINES_PER_FILE + ld_lines_indexed ?ld]"
    let ?stop = "case ld_file ?ld of None \<Rightarrow> False
                 | Some lf \<Rightarrow> ld_lines_indexed ?ld + 1 = length (lf_lines lf)"
    show ?thesis
    proof (cases ?stop)
      case True
      with "1.prems" Some h have "index' = ?index1"
        by (simp add: merge_loop.simps [of files index] Let_def)
      then show ?thesis by blast
    next
      case False
      with "1.prems" Some h have m: "merge_loop ?files1 ?index1 = (files', index')"
        by (simp add: merge_loop.simps [of files index] Let_def)
      have "\<exists>new. index' = ?index1 @ new"
        by (rule "1.IH" [OF Some h [symmetric] refl refl refl refl refl refl _ m]) (use False in simp)
      then show ?thesis by auto
    qed
  qed
qed

lemma build_filtered_index_sorted:
  assumes "build_filtered_index s rows filtered = Inr out"
    and "sorted_wrt (<) (filtered @ rows)"
    and "\<forall>i \<in> set rows. i < 2 ^ 32"
  shows "sorted_wrt (<) out \<and> set out \<subseteq> set filtered \<union> set rows"
  using assms
proof (induction rows arbitrary: filtered)
  case Nil
  then show ?case by simp
next
  case (Cons i rows)
  from Cons.prems(1) obtain ok where a: "filter_accepts s i = Inr ok"
    and b: "build_filtered_index s rows (if ok then filtered @ [i mod 2 ^ 32] else filtered) = Inr out"
    by (cases "filter_accepts s i") auto
  from Cons.prems(3) have i: "i mod 2 ^ 32 = i" and rest: "\<forall>i \<in> set rows. i < 2 ^ 32" by simp_all
  let ?f = "if ok then filtered @ [i mod 2 ^ 32] else filtered"
  have srt: "sorted_wrt (<) (?f @ rows)"
    using Cons.prems(2) i by (auto simp: sorted_wrt_append)
  from Cons.IH [OF b srt rest] i show ?case by (auto split: if_splits)
qed

lemma extend_index_merge:
  assumes "extend_index False s = Inr s'"
  shows "\<exists>files' index'.
           kmerge (lss_files s) (lss_index s) = Inr (files', index') \<and>
           lss_files s' = files' \<and> lss_index s' = index' \<and>
           build_filtered_index (measure_files s\<lparr>lss_files := files', lss_index := index'\<rparr>)
             [length (lss_index s)..<length index'] (lss_filtered_index s)
             = Inr (lss_filtered_index s')"
  using assms measure_files_frame [of s]
  by (auto simp: extend_index_def Let_def split: sum.splits)

lemma rebuild_index_structure:
  assumes "rebuild_index env s = Inr (r, s')"
  shows "\<exists>files ps.
           poll_files env (lss_index s) [0..<length (lss_files s)]
             (lss_files s,
              \<lparr>ps_force = lss_force_rebuild s,
               ps_retval = (if lss_force_rebuild s then rr_full_rebuild else rr_no_change),
               ps_file_count = 0, ps_total_lines = 0\<rparr>) = Inr (files, ps) \<and>
           (s' = s\<lparr>lss_force_rebuild := False, lss_files := files\<rparr> \<or>
            extend_index False (s\<lparr>lss_force_rebuild := False, lss_files := files\<rparr>) = Inr s')"
  using assms
  by (auto simp: rebuild_index_def Let_def never_force_def split: sum.splits if_splits)

lemma rebuild_index_appends:
  assumes "rebuild_index env s = Inr (r, s')"
  shows "\<exists>new. lss_index s' = lss_index s @ new"
proof -
  from rebuild_index_structure [OF assms] obtain files ps where
    c: "s' = s\<lparr>lss_force_rebuild := False, lss_files := files\<rparr> \<or>
        extend_index False (s\<lparr>lss_force_rebuild := False, lss_files := files\<rparr>) = Inr s'"
    by blast
  then show ?thesis
  proof
    assume "s' = s\<lparr>lss_force_rebuild := False, lss_files := files\<rparr>"
    then show ?thesis by simp
  next
    assume "extend_index False (s\<lparr>lss_force_rebuild := False, lss_files := files\<rparr>) = Inr s'"
    from extend_index_merge [OF this] obtain files' where
      "kmerge files (lss_index s) = Inr (files', lss_index s')" by auto
    then have "merge_loop files (lss_index s) = (files', lss_index s')"
      by (auto simp: kmerge_def split: if_splits)
    then show ?thesis by (rule merge_loop_appends)
  qed
qed

lemma rebuild_index_filtered_ok:
  assumes r: "rebuild_index env s = Inr (r, s')"
    and ok: "filtered_index_ok s"
    and sz: "length (lss_index s') \<le> 2 ^ 32"
  shows "filtered_index_ok s'"
proof -
  from rebuild_index_appends [OF r] obtain new where new: "lss_index s' = lss_index s @ new" by blast
  from rebuild_index_structure [OF r] obtain files ps where
    c: "s' = s\<lparr>lss_force_rebuild := False, lss_files := files\<rparr> \<or>
        extend_index False (s\<lparr>lss_force_rebuild := False, lss_files := files\<rparr>) = Inr s'"
    by blast
  then show ?thesis
  proof
    assume "s' = s\<lparr>lss_force_rebuild := False, lss_files := files\<rparr>"
    with ok show ?thesis by (simp add: filtered_index_ok_def)
  next
    assume "extend_index False (s\<lparr>lss_force_rebuild := False, lss_files := files\<rparr>) = Inr s'"
    from extend_index_merge [OF this] obtain s2 where
      b: "build_filtered_index s2 [length (lss_index s)..<length (lss_index s')] (lss_filtered_index s)
            = Inr (lss_filtered_index s')"
      by auto
    have srt: "sorted_wrt (<) (lss_filtered_index s @ [length (lss_index s)..<length (lss_index s')])"
      using ok by (auto simp: filtered_index_ok_def sorted_wrt_append list_all_iff)
    have bound: "\<forall>i \<in> set [length (lss_index s)..<length (lss_index s')]. i < 2 ^ 32"
      using sz by auto
    from build_filtered_index_sorted [OF b srt bound]
    have s1: "sorted_wrt (<) (lss_filtered_index s')"
      and s2: "set (lss_filtered_index s') \<subseteq>
                 set (lss_filtered_index s) \<union> set [length (lss_index s)..<length (lss_index s')]"
      by simp_all
    have "i < length (lss_index s')" if "i \<in> set (lss_filtered_index s')" for i
    proof -
      from that s2 have "i \<in> set (lss_filtered_index s) \<or> i < length (lss_index s')" by auto
      moreover have "i < length (lss_index s)" if "i \<in> set (lss_filtered_index s)"
        using that ok by (simp add: filtered_index_ok_def list_all_iff)
      ultimately show ?thesis using new by auto
    qed
    with s1 show ?thesis by (simp add: filtered_index_ok_def list_all_iff)
  qed
qed

lemma text_update_marks_frame:
  "text_update_marks s bm = Inr (bm', s') \<Longrightarrow>
     lss_index s' = lss_index s \<and> lss_filtered_index s' = lss_filtered_index s"
  by (auto simp: text_update_marks_def Let_def split: sum.splits)

lemma text_filters_changed_filtered_ok:
  assumes r: "text_filters_changed refilter s view = Inr (s', view')"
    and sz: "length (lss_index s') \<le> 2 ^ 32"
  shows "filtered_index_ok s'"
proof -
  from r obtain s1 filtered where
    b: "build_filtered_index s1 [0..<length (lss_index s)] [] = Inr filtered"
    and i: "lss_index s' = lss_index s" and f: "lss_filtered_index s' = filtered"
    by (auto simp: text_filters_changed_def Let_def split: sum.splits option.splits
          dest!: text_update_marks_frame)
  have srt: "sorted_wrt (<) ([] @ [0..<length (lss_index s)])" by simp
  have bound: "\<forall>i \<in> set [0..<length (lss_index s)]. i < 2 ^ 32" using sz i by auto
  from build_filtered_index_sorted [OF b srt bound] i f
  show ?thesis by (auto simp: filtered_index_ok_def list_all_iff)
qed

lemma set_map_filter_eq: "set (List.map_filter f xs) = {y. \<exists>x \<in> set xs. f x = Some y}"
  by (induction xs) (auto simp: map_filter_simps split: option.splits)

lemma merge_heads_set:
  "set (merge_heads files) =
     {(i, ll). i < length files \<and>
        (\<exists>lf. ld_file (files ! i) = Some lf \<and> ld_lines_indexed (files ! i) < length (lf_lines lf) \<and>
              ll = lf_lines lf ! ld_lines_indexed (files ! i))}"
proof -
  have "(i, ll) \<in> set (merge_heads files) \<longleftrightarrow>
          i < length files \<and>
        (\<exists>lf. ld_file (files ! i) = Some lf \<and> ld_lines_indexed (files ! i) < length (lf_lines lf) \<and>
              ll = lf_lines lf ! ld_lines_indexed (files ! i))" for i ll
  proof
    assume "(i, ll) \<in> set (merge_heads files)"
    then show "i < length files \<and>
        (\<exists>lf. ld_file (files ! i) = Some lf \<and> ld_lines_indexed (files ! i) < length (lf_lines lf) \<and>
              ll = lf_lines lf ! ld_lines_indexed (files ! i))"
      by (rule merge_heads_mem)
  next
    assume a: "i < length files \<and>
        (\<exists>lf. ld_file (files ! i) = Some lf \<and> ld_lines_indexed (files ! i) < length (lf_lines lf) \<and>
              ll = lf_lines lf ! ld_lines_indexed (files ! i))"
    then obtain lf where lf: "ld_file (files ! i) = Some lf"
      and n: "ld_lines_indexed (files ! i) < length (lf_lines lf)"
      and ll: "ll = lf_lines lf ! ld_lines_indexed (files ! i)" by blast
    let ?f = "\<lambda>i. case ld_file (files ! i) of
               None \<Rightarrow> None
             | Some lf \<Rightarrow> map_option (Pair i) (nth_opt (lf_lines lf) (ld_lines_indexed (files ! i)))"
    have "?f i = Some (i, ll)" using lf n ll by (simp add: nth_opt_def)
    moreover have "i \<in> set [0..<length files]" using a by simp
    ultimately have "(i, ll) \<in> {y. \<exists>x \<in> set [0..<length files]. ?f x = Some y}" by blast
    then show "(i, ll) \<in> set (merge_heads files)"
      unfolding merge_heads_def set_map_filter_eq .
  qed
  then show ?thesis by auto
qed

lemma merge_heads_lines_left:
  "(i, ll) \<in> set (merge_heads files) \<Longrightarrow> i < length files \<and> 0 < lines_left (files ! i)"
  by (auto simp: merge_heads_set lines_left_def)

lemma merge_heads_complete:
  assumes "i < length files" and "0 < lines_left (files ! i)"
  shows "\<exists>ll. (i, ll) \<in> set (merge_heads files)"
  using assms by (auto simp: merge_heads_set lines_left_def split: option.splits)

lemma kmerge_top_None: "kmerge_top hs = None \<longleftrightarrow> hs = []"
  by (induction hs) (auto split: option.splits)

lemma kmerge_top_least:
  "kmerge_top hs = Some (i, ll) \<Longrightarrow> \<forall>(j, lj) \<in> set hs. get_timeval ll \<le> get_timeval lj"
proof (induction hs arbitrary: i ll)
  case Nil
  then show ?case by simp
next
  case (Cons h hs)
  show ?case
  proof (cases "kmerge_top hs")
    case None
    with Cons.prems have "h = (i, ll)" and "hs = []" by (simp_all add: kmerge_top_None)
    then show ?thesis by simp
  next
    case (Some m)
    obtain mi ml where m: "m = (mi, ml)" by (cases m)
    from Cons.IH [of mi ml] Some m
    have least: "\<forall>(j, lj) \<in> set hs. get_timeval ml \<le> get_timeval lj" by simp
    show ?thesis
    proof (cases "get_timeval ml < get_timeval (snd h)")
      case True
      with Cons.prems Some m have "(i, ll) = (mi, ml)" by simp
      with least True show ?thesis by (cases h) auto
    next
      case False
      with Cons.prems Some m have h: "h = (i, ll)" by simp
      with False have "get_timeval ll \<le> get_timeval ml" by simp
      with least h show ?thesis by (auto intro: order_trans)
    qed
  qed
qed

lemma merge_loop_unfold:
  assumes "kmerge_top (merge_heads files) = Some (i, ll)"
  shows "merge_loop files index =
           (if lines_left (files ! i) = 1
            then (files[i := (files ! i)\<lparr>ld_lines_indexed := ld_lines_indexed (files ! i) + 1\<rparr>],
                  index @ [ld_file_index (files ! i) * MAX_LINES_PER_FILE + ld_lines_indexed (files ! i)])
            else merge_loop
                   (files[i := (files ! i)\<lparr>ld_lines_indexed := ld_lines_indexed (files ! i) + 1\<rparr>])
                   (index @ [ld_file_index (files ! i) * MAX_LINES_PER_FILE + ld_lines_indexed (files ! i)]))"
proof -
  from assms have "(i, ll) \<in> set (merge_heads files)" by (rule kmerge_top_mem)
  then obtain lf where lf: "ld_file (files ! i) = Some lf"
    and n: "ld_lines_indexed (files ! i) < length (lf_lines lf)"
    by (auto simp: merge_heads_set)
  then have "(lines_left (files ! i) = 1) = (ld_lines_indexed (files ! i) + 1 = length (lf_lines lf))"
    by (auto simp: lines_left_def)
  with assms lf show ?thesis
    by (simp add: merge_loop.simps [of files index] Let_def)
qed

lemma merge_loop_idle:
  assumes "\<forall>ld \<in> set files. lines_left ld = 0"
  shows "merge_loop files index = (files, index)"
proof -
  have "merge_heads files = []"
  proof (rule ccontr)
    assume "merge_heads files \<noteq> []"
    then obtain i ll where "(i, ll) \<in> set (merge_heads files)"
      by (cases "merge_heads files") auto
    from merge_heads_lines_left [OF this] assms show False by auto
  qed
  then show ?thesis by (simp add: merge_loop.simps [of files index])
qed

lemma lines_left_advance_eq:
  assumes "i < length files" and "0 < lines_left (files ! i)"
  shows "Suc (sum_list (map lines_left (files[i := (files ! i)\<lparr>ld_lines_indexed := ld_lines_indexed (files ! i) + 1\<rparr>])))
           = sum_list (map lines_left files)"
proof -
  let ?ld' = "(files ! i)\<lparr>ld_lines_indexed := ld_lines_indexed (files ! i) + 1\<rparr>"
  have a: "Suc (lines_left ?ld') = lines_left (files ! i)"
    using assms(2) by (auto simp: lines_left_def split: option.splits)
  have b: "lines_left (files ! i) \<le> sum_list (map lines_left files)"
    using assms(1) by (simp add: member_le_sum_list)
  have "sum_list (map lines_left (files[i := ?ld'])) =
          sum_list (map lines_left files) + lines_left ?ld' - lines_left (files ! i)"
    using assms(1) by (simp add: map_update sum_list_update)
  with a b show ?thesis by linarith
qed

lemma merge_loop_stops:
  assumes "merge_loop files index = (files', index')"
    and "\<exists>ld \<in> set files. 0 < lines_left ld"
  shows "length files' = length files \<and>
         (\<exists>i < length files. 0 < lines_left (files ! i) \<and> lines_left (files' ! i) = 0 \<and>
            (\<forall>j < length files. j \<noteq> i \<and> 0 < lines_left (files ! j) \<longrightarrow> 0 < lines_left (files' ! j))) \<and>
         length index' + sum_list (map lines_left files') =
           length index + sum_list (map lines_left files)"
  using assms
proof (induction files index rule: merge_loop.induct)
  case (1 files index)
  from "1.prems"(2) obtain k where "k < length files" "0 < lines_left (files ! k)"
    by (auto simp: in_set_conv_nth)
  then have "merge_heads files \<noteq> []" using merge_heads_complete by fastforce
  then obtain h where top: "kmerge_top (merge_heads files) = Some h"
    by (cases "kmerge_top (merge_heads files)") (auto simp: kmerge_top_None)
  obtain i ll where h: "h = (i, ll)" by (cases h)
  let ?ld = "files ! i"
  let ?files1 = "files[i := ?ld\<lparr>ld_lines_indexed := ld_lines_indexed ?ld + 1\<rparr>]"
  let ?index1 = "index @ [ld_file_index ?ld * MAX_LINES_PER_FILE + ld_lines_indexed ?ld]"
  from top h have mem: "(i, ll) \<in> set (merge_heads files)" by (simp add: kmerge_top_mem)
  from merge_heads_lines_left [OF mem] have i: "i < length files" and pos: "0 < lines_left ?ld"
    by simp_all
  have sum1: "Suc (sum_list (map lines_left ?files1)) = sum_list (map lines_left files)"
    by (rule lines_left_advance_eq [OF i pos])
  have left1: "Suc (lines_left (?files1 ! i)) = lines_left ?ld"
    using i pos by (auto simp: lines_left_def split: option.splits)
  have other: "?files1 ! j = files ! j" if "j \<noteq> i" for j using that by simp
  have unf: "merge_loop files index =
               (if lines_left ?ld = 1 then (?files1, ?index1) else merge_loop ?files1 ?index1)"
    using top h by (simp add: merge_loop_unfold)
  show ?case
  proof (cases "lines_left ?ld = 1")
    case True
    with unf "1.prems"(1) have r: "files' = ?files1" "index' = ?index1" by simp_all
    from True left1 have z: "lines_left (?files1 ! i) = 0" by simp
    have "\<forall>j < length files. j \<noteq> i \<and> 0 < lines_left (files ! j) \<longrightarrow> 0 < lines_left (?files1 ! j)"
      using other by simp
    with r i pos z sum1 show ?thesis by auto
  next
    case False
    with unf "1.prems"(1) have m: "merge_loop ?files1 ?index1 = (files', index')" by simp
    from False pos left1 have pos1: "0 < lines_left (?files1 ! i)" by linarith
    have stop: "\<not> (case ld_file ?ld of None \<Rightarrow> False
                    | Some lf \<Rightarrow> ld_lines_indexed ?ld + 1 = length (lf_lines lf))"
      using False pos by (auto simp: lines_left_def split: option.splits)
    have ex1: "\<exists>ld \<in> set ?files1. 0 < lines_left ld"
      using pos1 i by (metis length_list_update nth_mem)
    have IH: "length files' = length ?files1 \<and>
         (\<exists>i' < length ?files1. 0 < lines_left (?files1 ! i') \<and> lines_left (files' ! i') = 0 \<and>
            (\<forall>j < length ?files1. j \<noteq> i' \<and> 0 < lines_left (?files1 ! j) \<longrightarrow> 0 < lines_left (files' ! j))) \<and>
         length index' + sum_list (map lines_left files') =
           length ?index1 + sum_list (map lines_left ?files1)"
      by (rule "1.IH" [OF top h [symmetric] refl refl refl refl refl refl stop m ex1])
    then obtain i' where len: "length files' = length files"
      and i': "i' < length files" "0 < lines_left (?files1 ! i')" "lines_left (files' ! i') = 0"
      and oth: "\<forall>j < length files. j \<noteq> i' \<and> 0 < lines_left (?files1 ! j) \<longrightarrow> 0 < lines_left (files' ! j)"
      and cnt: "length index' + sum_list (map lines_left files') =
                  length ?index1 + sum_list (map lines_left ?files1)"
      by auto
    have p0: "0 < lines_left (files ! i')"
      using i'(2) other [of i'] pos by (cases "i' = i") auto
    have oth0: "\<forall>j < length files. j \<noteq> i' \<and> 0 < lines_left (files ! j) \<longrightarrow> 0 < lines_left (files' ! j)"
    proof (intro allI impI)
      fix j assume j: "j < length files" and c: "j \<noteq> i' \<and> 0 < lines_left (files ! j)"
      have "0 < lines_left (?files1 ! j)"
        using c pos1 other [of j] by (cases "j = i") auto
      with oth j c show "0 < lines_left (files' ! j)" by simp
    qed
    from cnt sum1 have "length index' + sum_list (map lines_left files') =
           length index + sum_list (map lines_left files)" by simp
    with len i'(1) p0 i'(3) oth0 show ?thesis by blast
  qed
qed





lemma map_update_same:
  assumes "f y = f (xs ! i)"
  shows "map f (xs[i := y]) = map f xs"
proof (rule nth_equalityI)
  show "length (map f (xs[i := y])) = length (map f xs)" by simp
next
  fix k assume "k < length (map f (xs[i := y]))"
  then show "map f (xs[i := y]) ! k = map f xs ! k"
    using assms by (cases "k = i") simp_all
qed

lemma advance_files:
  "map ld_file (files[i := (files ! i)\<lparr>ld_lines_indexed := n\<rparr>]) = map ld_file files"
  by (rule map_update_same) simp






subsection \<open>When rebuild\_index and text\_filters\_changed return\<close>

lemma index_wf_slot:
  "index_wf env s \<Longrightarrow> i < length (lss_files s) \<Longrightarrow> slot_wf env (lss_index s) i (lss_files s ! i)"
  by (simp add: index_wf_def list_all_iff)

lemma observe_fields:
  "ld_lines_indexed (observe env ld) = ld_lines_indexed ld \<and>
   ld_file_index (observe env ld) = ld_file_index ld"
  by (simp add: observe_def split: option.splits prod.splits)

lemma find_line_tail:
  assumes "k < length cur" and "line_in_file (cur ! k) n"
    and "cl div MAX_LINES_PER_FILE = k" and "cl mod MAX_LINES_PER_FILE = n"
  shows "\<exists>r. find_line cur cl = Inr r"
  using assms
  by (cases "ld_file (cur ! k)")
     (simp_all add: find_line_def find_data_def nth_opt_def line_in_file_def)

lemma poll_file_returns:
  assumes wf: "slot_wf env index i (cur ! i)"
    and tail: "index \<noteq> [] \<longrightarrow> (\<exists>r. find_line (cur[i := observe env (cur ! i)]) (last index) = Inr r)"
  shows "\<exists>ps'. poll_file env index cur i ps = Inr (cur[i := observe env (cur ! i)], ps')"
proof (cases "ld_file (cur ! i)")
  case None
  then have "observe env (cur ! i) = cur ! i" by (simp add: observe_def)
  with None show ?thesis by (simp add: poll_file_def Let_def)
next
  case (Some lf)
  show ?thesis
  proof (cases "is_paused env")
    case True
    with Some have "observe env (cur ! i) = cur ! i" by (simp add: observe_def)
    with Some True show ?thesis by (simp add: poll_file_def Let_def)
  next
    case False
    obtain rb lf' lfs' where o: "lf_rebuild_index env lf (ld_filter_state (cur ! i)) = (rb, lf', lfs')"
      by (cases "lf_rebuild_index env lf (ld_filter_state (cur ! i))") auto
    let ?ld = "cur ! i"
    let ?files' = "cur[i := ?ld\<lparr>ld_file := Some lf', ld_filter_state := lfs'\<rparr>]"
    have ob: "observe env ?ld = ?ld\<lparr>ld_file := Some lf', ld_filter_state := lfs'\<rparr>"
      using Some False o by (simp add: observe_def)
    have rep: "reports env ?ld = Some rb" using Some o by (simp add: reports_def)
    from wf ob rep False
    have new: "index \<noteq> [] \<Longrightarrow> rb = RR_NEW_LINES \<Longrightarrow> ld_lines_indexed ?ld < length (lf_lines lf')"
      by (auto simp: slot_wf_def)
    let ?rebuild = "if rb = RR_NO_NEW_LINES \<and> ld_lines_indexed ?ld < length (lf_lines lf')
                    then RR_NEW_LINES else rb"
    have new': "index \<noteq> [] \<Longrightarrow> ?rebuild = RR_NEW_LINES \<Longrightarrow> ld_lines_indexed ?ld < length (lf_lines lf')"
      using new by (auto split: if_splits)
    have unf: "poll_file env index cur i ps =
       (case ?rebuild of
          RR_NO_NEW_LINES \<Rightarrow> Inr (?files', count_file lf' ps)
        | RR_NEW_LINES \<Rightarrow>
            (let ps1 = (if ps_retval ps = rr_no_change
                        then ps\<lparr>ps_retval := rr_appended_lines\<rparr> else ps)
             in if index = [] then Inr (?files', count_file lf' ps1)
                else
                  (case nth_opt (lf_lines lf') (ld_lines_indexed ?ld) of
                     None \<Rightarrow> Inl OutOfRange
                   | Some new_file_line \<Rightarrow>
                       (case find_line ?files' (last index) of
                          Inl e \<Rightarrow> Inl e
                        | Inr None \<Rightarrow> Inr (?files', count_file lf' (force_full ps1))
                        | Inr (Some last_indexed_line) \<Rightarrow>
                            if logline_less new_file_line (get_timeval last_indexed_line)
                            then Inr (?files', count_file lf' (force_full ps1))
                            else Inr (?files', count_file lf' ps1))))
        | RR_INVALID \<Rightarrow> Inr (?files', count_file lf' (force_full ps))
        | RR_NEW_ORDER \<Rightarrow> Inr (?files', count_file lf' (force_full ps)))"
      by (simp only: poll_file_def Let_def Some False o option.case prod.case if_False)
    show ?thesis
    proof (cases ?rebuild)
      case RR_INVALID
      then show ?thesis unfolding unf ob by simp
    next
      case RR_NO_NEW_LINES
      then show ?thesis unfolding unf ob by simp
    next
      case RR_NEW_ORDER
      then show ?thesis unfolding unf ob by simp
    next
      case RR_NEW_LINES
      show ?thesis
      proof (cases "index = []")
        case True
        with RR_NEW_LINES show ?thesis unfolding unf ob by (simp add: Let_def)
      next
        case ne: False
        from new' [OF ne RR_NEW_LINES]
        have nth: "nth_opt (lf_lines lf') (ld_lines_indexed ?ld) = Some (lf_lines lf' ! ld_lines_indexed ?ld)"
          by (simp add: nth_opt_def)
        from tail ne ob obtain r where r: "find_line ?files' (last index) = Inr r" by auto
        show ?thesis
          unfolding unf ob using RR_NEW_LINES ne nth r
          by (cases r) (simp_all add: Let_def)
      qed
    qed
  qed
qed

lemma poll_files_returns:
  assumes "\<forall>i \<in> set is. i < length files \<and> slot_wf env index i (files ! i)"
    and "index \<noteq> [] \<longrightarrow>
           (\<exists>k n. last index div MAX_LINES_PER_FILE = k \<and> last index mod MAX_LINES_PER_FILE = n \<and>
                  k < length files \<and> line_in_file (files ! k) n \<and>
                  line_in_file (observe env (files ! k)) n)"
    and "length cur = length files"
    and "\<forall>k < length files. cur ! k = (if k \<in> set is then files ! k else observe env (files ! k))"
    and "distinct is"
  shows "\<exists>files1 ps'. poll_files env index is (cur, ps) = Inr (files1, ps') \<and>
           length files1 = length files \<and>
           (\<forall>k < length files. files1 ! k = observe env (files ! k))"
  using assms
proof (induction "is" arbitrary: cur ps)
  case Nil
  then show ?case by simp
next
  case (Cons i rest)
  from Cons.prems(1) have i: "i < length files" and wfi: "slot_wf env index i (files ! i)" by simp_all
  from Cons.prems(4) i have ci: "cur ! i = files ! i" by simp
  let ?cur1 = "cur[i := observe env (cur ! i)]"
  have inv1: "\<forall>k < length files. ?cur1 ! k = (if k \<in> set rest then files ! k else observe env (files ! k))"
  proof (intro allI impI)
    fix k assume k: "k < length files"
    show "?cur1 ! k = (if k \<in> set rest then files ! k else observe env (files ! k))"
    proof (cases "k = i")
      case True
      with Cons.prems(5) have "k \<notin> set rest" by simp
      with True ci i Cons.prems(3) show ?thesis by simp
    next
      case False
      with Cons.prems(4) k show ?thesis by simp
    qed
  qed
  have tail: "index \<noteq> [] \<longrightarrow> (\<exists>r. find_line ?cur1 (last index) = Inr r)"
  proof
    assume "index \<noteq> []"
    with Cons.prems(2) obtain k n where kn: "last index div MAX_LINES_PER_FILE = k"
      "last index mod MAX_LINES_PER_FILE = n" "k < length files"
      "line_in_file (files ! k) n" "line_in_file (observe env (files ! k)) n" by blast
    from inv1 kn(3) have "?cur1 ! k = files ! k \<or> ?cur1 ! k = observe env (files ! k)" by simp
    with kn have lk: "line_in_file (?cur1 ! k) n" by auto
    have kl: "k < length ?cur1" using kn(3) Cons.prems(3) by simp
    show "\<exists>r. find_line ?cur1 (last index) = Inr r"
      by (rule find_line_tail [OF kl lk kn(1) kn(2)])
  qed
  from wfi ci have wfc: "slot_wf env index i (cur ! i)" by simp
  from poll_file_returns [OF wfc tail] obtain ps1 where
    p1: "poll_file env index cur i ps = Inr (?cur1, ps1)" by blast
  have "\<exists>files1 ps'. poll_files env index rest (?cur1, ps1) = Inr (files1, ps') \<and>
           length files1 = length files \<and>
           (\<forall>k < length files. files1 ! k = observe env (files ! k))"
    by (rule Cons.IH) (use Cons.prems inv1 in auto)
  with p1 show ?case by simp
qed

lemma filter_accepts_returns:
  assumes "index_index < length (lss_index s)"
    and "entry_ok (lss_files s) (lss_index s ! index_index)"
  shows "\<exists>b. filter_accepts s index_index = Inr b"
proof -
  let ?cl = "lss_index s ! index_index"
  from assms(2) obtain ld n lf where fd: "find_data (lss_files s) ?cl = Some (ld, n)"
    and lf: "ld_file ld = Some lf" and n: "n < length (lf_lines lf)"
    and m: "n < length (tfs_mask (ld_filter_state ld))"
    by (auto simp: entry_ok_def split: option.splits)
  from m obtain b where ex: "excluded (ld_filter_state ld) (lss_filter_in_mask s) (lss_filter_out_mask s) n = Inr b"
    by (simp add: excluded_def nth_opt_def)
  show ?thesis
    using assms(1) fd lf n ex by (cases b) (auto simp: filter_accepts_def nth_opt_def)
qed

lemma build_filtered_index_returns:
  assumes "\<forall>i \<in> set rows. i < length (lss_index s) \<and> entry_ok (lss_files s) (lss_index s ! i)"
  shows "\<exists>out. build_filtered_index s rows filtered = Inr out"
  using assms
proof (induction rows arbitrary: filtered)
  case Nil
  then show ?case by simp
next
  case (Cons i rows)
  from Cons.prems have "i < length (lss_index s)" "entry_ok (lss_files s) (lss_index s ! i)" by simp_all
  from filter_accepts_returns [OF this] obtain b where b: "filter_accepts s i = Inr b" by blast
  from Cons.prems have "\<forall>i \<in> set rows. i < length (lss_index s) \<and> entry_ok (lss_files s) (lss_index s ! i)"
    by simp
  from Cons.IH [OF this] b show ?case by simp
qed

lemma entry_ok_cong:
  assumes "map ld_file files' = map ld_file files"
    and "map ld_filter_state files' = map ld_filter_state files"
  shows "entry_ok files' cl = entry_ok files cl"
proof -
  from assms(1) have len: "length files' = length files" by (rule map_eq_imp_length_eq)
  have "ld_file (files' ! k) = ld_file (files ! k) \<and>
        ld_filter_state (files' ! k) = ld_filter_state (files ! k)" if "k < length files" for k
  proof -
    have "map ld_file files' ! k = map ld_file files ! k"
      "map ld_filter_state files' ! k = map ld_filter_state files ! k" using assms by simp_all
    with that len show ?thesis by simp
  qed
  with len show ?thesis
    by (auto simp: entry_ok_def find_data_def nth_opt_def split: option.splits)
qed

lemma advance_filter_states:
  "map ld_filter_state (files[i := (files ! i)\<lparr>ld_lines_indexed := n\<rparr>]) = map ld_filter_state files"
  by (rule map_update_same) simp

lemma slots_ok_advance:
  assumes "slots_ok files"
  shows "slots_ok (files[i := (files ! i)\<lparr>ld_lines_indexed := n\<rparr>])"
  unfolding slots_ok_def
proof (intro allI impI)
  fix j lf
  let ?files1 = "files[i := (files ! i)\<lparr>ld_lines_indexed := n\<rparr>]"
  assume j: "j < length ?files1" and lf: "ld_file (?files1 ! j) = Some lf"
  from j have j': "j < length files" by simp
  have "ld_file (?files1 ! j) = ld_file (files ! j) \<and>
        ld_file_index (?files1 ! j) = ld_file_index (files ! j) \<and>
        ld_filter_state (?files1 ! j) = ld_filter_state (files ! j)"
    using j' by (cases "j = i") simp_all
  with assms j' lf show "ld_file_index (?files1 ! j) = j \<and> length (lf_lines lf) \<le> MAX_LINES_PER_FILE \<and>
        length (lf_lines lf) \<le> length (tfs_mask (ld_filter_state (?files1 ! j)))"
    by (simp add: slots_ok_def)
qed

lemma merge_loop_entries:
  assumes "merge_loop files index = (files', index')"
    and "slots_ok files"
  shows "\<exists>new. index' = index @ new \<and> (\<forall>cl \<in> set new. entry_ok files cl) \<and>
               map ld_file files' = map ld_file files \<and>
               map ld_filter_state files' = map ld_filter_state files"
  using assms
proof (induction files index rule: merge_loop.induct)
  case (1 files index)
  show ?case
  proof (cases "kmerge_top (merge_heads files)")
    case None
    with "1.prems" show ?thesis by (simp add: merge_loop.simps [of files index])
  next
    case (Some h)
    obtain i ll where h: "h = (i, ll)" by (cases h)
    let ?ld = "files ! i"
    let ?n = "ld_lines_indexed ?ld"
    let ?files1 = "files[i := ?ld\<lparr>ld_lines_indexed := ?n + 1\<rparr>]"
    let ?cl = "ld_file_index ?ld * MAX_LINES_PER_FILE + ?n"
    let ?index1 = "index @ [?cl]"
    let ?stop = "case ld_file ?ld of None \<Rightarrow> False
                 | Some lf \<Rightarrow> ?n + 1 = length (lf_lines lf)"
    from Some h have "(i, ll) \<in> set (merge_heads files)" by (simp add: kmerge_top_mem)
    then obtain lf where i: "i < length files" and lf: "ld_file ?ld = Some lf"
      and n: "?n < length (lf_lines lf)" by (auto simp: merge_heads_set)
    from "1.prems"(2) i lf have fi: "ld_file_index ?ld = i"
      and sz: "length (lf_lines lf) \<le> MAX_LINES_PER_FILE"
      and mk: "length (lf_lines lf) \<le> length (tfs_mask (ld_filter_state ?ld))"
      by (simp_all add: slots_ok_def)
    from n sz have nm: "?n < MAX_LINES_PER_FILE" by simp
    then have "?cl div MAX_LINES_PER_FILE = i" "?cl mod MAX_LINES_PER_FILE = ?n"
      using fi by simp_all
    then have ok: "entry_ok files ?cl"
      using i lf n mk by (simp add: entry_ok_def find_data_def nth_opt_def)
    have c1: "map ld_file ?files1 = map ld_file files"
      and c2: "map ld_filter_state ?files1 = map ld_filter_state files"
      by (rule advance_files, rule advance_filter_states)
    show ?thesis
    proof (cases ?stop)
      case True
      with "1.prems"(1) Some h have "files' = ?files1" "index' = ?index1"
        by (simp_all add: merge_loop.simps [of files index] Let_def)
      with ok c1 c2 show ?thesis by simp
    next
      case False
      with "1.prems"(1) Some h have m: "merge_loop ?files1 ?index1 = (files', index')"
        by (simp add: merge_loop.simps [of files index] Let_def)
      have so1: "slots_ok ?files1" using "1.prems"(2) by (rule slots_ok_advance)
      have "\<exists>new. index' = ?index1 @ new \<and> (\<forall>cl \<in> set new. entry_ok ?files1 cl) \<and>
               map ld_file files' = map ld_file ?files1 \<and>
               map ld_filter_state files' = map ld_filter_state ?files1"
        by (rule "1.IH" [OF Some h [symmetric] refl refl refl refl refl refl _ m so1])
           (use False in simp)
      then obtain new where new: "index' = ?index1 @ new"
        and oks: "\<forall>cl \<in> set new. entry_ok ?files1 cl"
        and f1: "map ld_file files' = map ld_file ?files1"
        and f2: "map ld_filter_state files' = map ld_filter_state ?files1" by blast
      have eq: "entry_ok ?files1 cl = entry_ok files cl" for cl
        by (rule entry_ok_cong [OF c1 c2])
      from oks have "\<forall>cl \<in> set new. entry_ok files cl"
        by (simp only: eq)
      with ok have "\<forall>cl \<in> set (?cl # new). entry_ok files cl" by simp
      moreover from new have "index' = index @ (?cl # new)" by simp
      ultimately show ?thesis using f1 f2 c1 c2 by metis
    qed
  qed
qed

lemma poll_returns_observed:
  assumes "index_wf env s"
  shows "\<exists>ps. poll_files env (lss_index s) [0..<length (lss_files s)] (lss_files s, ps0)
              = Inr (observed env s, ps)"
proof -
  let ?files = "lss_files s"
  have a1: "\<forall>i \<in> set [0..<length ?files]. i < length ?files \<and> slot_wf env (lss_index s) i (?files ! i)"
    using assms by (simp add: index_wf_def list_all_iff)
  have a2: "lss_index s \<noteq> [] \<longrightarrow>
           (\<exists>k n. last (lss_index s) div MAX_LINES_PER_FILE = k \<and>
                  last (lss_index s) mod MAX_LINES_PER_FILE = n \<and>
                  k < length ?files \<and> line_in_file (?files ! k) n \<and>
                  line_in_file (observe env (?files ! k)) n)"
    using assms by (auto simp: index_wf_def tail_resolves_def)
  have a4: "\<forall>k < length ?files. ?files ! k =
              (if k \<in> set [0..<length ?files] then ?files ! k else observe env (?files ! k))"
    by simp
  from poll_files_returns [OF a1 a2 refl a4 distinct_upt, of ps0]
  obtain files1 ps where p: "poll_files env (lss_index s) [0..<length ?files] (?files, ps0) = Inr (files1, ps)"
    and l: "length files1 = length ?files"
    and n: "\<forall>k < length ?files. files1 ! k = observe env (?files ! k)" by blast
  have "files1 = observed env s"
    unfolding observed_def
    by (rule nth_equalityI) (use l n in simp_all)
  with p show ?thesis by blast
qed

lemma observed_slots_ok:
  assumes "index_wf env s"
  shows "slots_ok (observed env s)"
  unfolding slots_ok_def
proof (intro allI impI)
  fix i lf
  assume i: "i < length (observed env s)" and lf: "ld_file (observed env s ! i) = Some lf"
  from i have i': "i < length (lss_files s)" by (simp add: observed_def)
  then have o: "observed env s ! i = observe env (lss_files s ! i)" by (simp add: observed_def)
  from index_wf_slot [OF assms i'] lf o observe_fields [of env "lss_files s ! i"]
  show "ld_file_index (observed env s ! i) = i \<and>
        length (lf_lines lf) \<le> MAX_LINES_PER_FILE \<and>
        length (lf_lines lf) \<le> length (tfs_mask (ld_filter_state (observed env s ! i)))"
    by (simp add: slot_wf_def)
qed

lemma observed_no_overrun:
  assumes "index_wf env s"
  shows "\<not> list_ex (\<lambda>ld. case ld_file ld of
                          None \<Rightarrow> False
                        | Some lf \<Rightarrow> length (lf_lines lf) < ld_lines_indexed ld) (observed env s)"
proof -
  have "\<not> (case ld_file ld of None \<Rightarrow> False | Some lf \<Rightarrow> length (lf_lines lf) < ld_lines_indexed ld)"
    if "ld \<in> set (observed env s)" for ld
  proof -
    from that obtain i where i: "i < length (lss_files s)" and ld: "ld = observe env (lss_files s ! i)"
      by (auto simp: observed_def in_set_conv_nth)
    from index_wf_slot [OF assms i] ld observe_fields [of env "lss_files s ! i"]
    show ?thesis by (auto simp: slot_wf_def split: option.splits)
  qed
  then show ?thesis by (simp add: list_ex_iff)
qed

lemma extend_index_returns:
  assumes so: "slots_ok (lss_files s)"
    and nv: "\<not> list_ex (\<lambda>ld. case ld_file ld of
                          None \<Rightarrow> False
                        | Some lf \<Rightarrow> length (lf_lines lf) < ld_lines_indexed ld) (lss_files s)"
  shows "\<exists>s'. extend_index False s = Inr s'"
proof -
  let ?s1 = "measure_files s"
  have f: "lss_files ?s1 = lss_files s" "lss_index ?s1 = lss_index s"
    using measure_files_frame [of s] by simp_all
  obtain files' index' where m: "merge_loop (lss_files s) (lss_index s) = (files', index')"
    by (cases "merge_loop (lss_files s) (lss_index s)")
  from merge_loop_entries [OF m so] obtain new where new: "index' = lss_index s @ new"
    and oks: "\<forall>cl \<in> set new. entry_ok (lss_files s) cl"
    and c1: "map ld_file files' = map ld_file (lss_files s)"
    and c2: "map ld_filter_state files' = map ld_filter_state (lss_files s)" by blast
  let ?s2 = "?s1\<lparr>lss_files := files', lss_index := index'\<rparr>"
  have "\<forall>i \<in> set [length (lss_index s)..<length index'].
          i < length (lss_index ?s2) \<and> entry_ok (lss_files ?s2) (lss_index ?s2 ! i)"
  proof
    fix i assume "i \<in> set [length (lss_index s)..<length index']"
    then have lo: "length (lss_index s) \<le> i" and hi: "i < length index'" by simp_all
    with new have "index' ! i = new ! (i - length (lss_index s))"
      and "i - length (lss_index s) < length new"
      by (simp_all add: nth_append)
    then have "index' ! i \<in> set new" by simp
    with oks have "entry_ok (lss_files s) (index' ! i)" by simp
    then have "entry_ok files' (index' ! i)" by (simp only: entry_ok_cong [OF c1 c2])
    with hi show "i < length (lss_index ?s2) \<and> entry_ok (lss_files ?s2) (lss_index ?s2 ! i)"
      by simp
  qed
  from build_filtered_index_returns [OF this, of "lss_filtered_index ?s2"]
  obtain out where b: "build_filtered_index ?s2 [length (lss_index s)..<length index']
                         (lss_filtered_index ?s2) = Inr out" by blast
  have k: "kmerge (lss_files ?s1) (lss_index ?s1) = Inr (files', index')"
    using nv m f by (simp add: kmerge_def)
  show ?thesis
    using k b by (simp add: extend_index_def Let_def f)
qed

lemma rebuild_index_returns:
  assumes "index_wf env s"
  shows "\<exists>r s'. rebuild_index env s = Inr (r, s')"
proof -
  let ?ps0 = "\<lparr>ps_force = lss_force_rebuild s,
               ps_retval = (if lss_force_rebuild s then rr_full_rebuild else rr_no_change),
               ps_file_count = 0, ps_total_lines = 0\<rparr>"
  from poll_returns_observed [OF assms, of ?ps0] obtain ps where
    p: "poll_files env (lss_index s) [0..<length (lss_files s)] (lss_files s, ?ps0)
          = Inr (observed env s, ps)" by blast
  let ?s1 = "s\<lparr>lss_force_rebuild := False, lss_files := observed env s\<rparr>"
  have "\<exists>s'. extend_index False ?s1 = Inr s'"
    by (rule extend_index_returns)
       (simp_all add: observed_slots_ok [OF assms] observed_no_overrun [OF assms])
  then obtain s3 where e: "extend_index False ?s1 = Inr s3" by blast
  show ?thesis
    using p e by (simp add: rebuild_index_def Let_def never_force_def)
qed


lemma build_filtered_index_range:
  "build_filtered_index s rows filtered = Inr out \<Longrightarrow>
     set out \<subseteq> set filtered \<union> (\<lambda>i. i mod 2 ^ 32) ` set rows"
proof (induction rows arbitrary: filtered)
  case Nil
  then show ?case by simp
next
  case (Cons i rows)
  from Cons.prems obtain ok where a: "filter_accepts s i = Inr ok"
    and b: "build_filtered_index s rows (if ok then filtered @ [i mod 2 ^ 32] else filtered) = Inr out"
    by (cases "filter_accepts s i") auto
  from Cons.IH [OF b] show ?case by (auto split: if_splits)
qed

lemma entry_ok_find_line:
  "entry_ok files cl \<Longrightarrow> \<exists>ll. find_line files cl = Inr (Some ll)"
  by (auto simp: entry_ok_def find_line_def nth_opt_def split: option.splits)

lemma text_filters_changed_returns:
  assumes "filters_wf refilter s"
  shows "\<exists>s' view'. text_filters_changed refilter s view = Inr (s', view')"
proof -
  let ?s1 = "s\<lparr>lss_files := refiltered refilter (lss_files s), lss_filtered_index := []\<rparr>"
  have ok: "entry_ok (lss_files ?s1) (lss_index ?s1 ! i)" if "i < length (lss_index s)" for i
    using assms that by (simp add: filters_wf_def list_all_iff)
  then have "\<forall>i \<in> set [0..<length (lss_index ?s1)].
          i < length (lss_index ?s1) \<and> entry_ok (lss_files ?s1) (lss_index ?s1 ! i)" by simp
  from build_filtered_index_returns [OF this, of "[]"]
  obtain out where b: "build_filtered_index ?s1 [0..<length (lss_index ?s1)] [] = Inr out" by blast
  let ?s2 = "?s1\<lparr>lss_filtered_index := out\<rparr>"
  have unf: "text_filters_changed refilter s view =
               (case view of
                  None \<Rightarrow> Inr (?s2, None)
                | Some bm \<Rightarrow>
                    (case text_update_marks ?s2 bm of
                       Inl e \<Rightarrow> Inl e
                     | Inr (bm', s3) \<Rightarrow> Inr (s3, Some bm')))"
    using b by (cases view) (simp_all add: text_filters_changed_def refiltered_def Let_def)
  show ?thesis
  proof (cases view)
    case None
    with unf show ?thesis by simp
  next
    case (Some bm)
    have "row_line ?s2 vl \<noteq> None" if vl: "vl < length out" for vl
    proof -
      from build_filtered_index_range [OF b]
      have sub: "set out \<subseteq> (\<lambda>i. i mod 2 ^ 32) ` set [0..<length (lss_index s)]" by simp
      have "out ! vl \<in> set out" using vl by simp
      with sub have "out ! vl \<in> (\<lambda>i. i mod 2 ^ 32) ` set [0..<length (lss_index s)]" by (rule subsetD)
      then obtain i where i': "i \<in> set [0..<length (lss_index s)]" and o: "out ! vl = i mod 2 ^ 32"
        by (rule imageE)
      from i' have i: "i < length (lss_index s)" by simp
      have "i mod 2 ^ 32 \<le> i" by simp
      with i o have j: "out ! vl < length (lss_index s)" by simp
      from entry_ok_find_line [OF ok [OF j]] obtain ll where
        "find_line (lss_files ?s1) (lss_index s ! (out ! vl)) = Inr (Some ll)" by auto
      with vl j show ?thesis by (simp add: row_line_def at_def nth_opt_def)
    qed
    then have "rows_resolve ?s2" by (simp add: rows_resolve_def list_all_iff)
    from text_update_marks_returns [OF this, of bm] obtain bm' s3 where
      "text_update_marks ?s2 bm = Inr (bm', s3)" by blast
    with unf Some show ?thesis by simp
  qed
qed

section \<open>The value rebuild\_index returns\<close>

text \<open>
  C1 as stated fails: for a file that reports \<^verbatim>\<open>RR_NEW_ORDER\<close>, and for a file that
  appends a line stamped 2 s behind an index whose last line is stamped 5 s,
  \<open>rebuild_index\<close> returns \<^verbatim>\<open>rr_appended_lines\<close>.
\<close>

theorem rebuild_index_full_counterexample:
  "\<not> is_paused reorder_env \<and>
   reports reorder_env (lss_files indexed_file ! 0) = Some RR_NEW_ORDER \<and>
   returned (rebuild_index reorder_env indexed_file) = Some rr_appended_lines \<and>
   reports (append_env ''A'' (line_at 2)) (lss_files indexed_file ! 0) = Some RR_NEW_LINES \<and>
   returned (rebuild_index (append_env ''A'' (line_at 2)) indexed_file) = Some rr_appended_lines"
  by code_simp

text \<open>
  C1, amended. \<open>rebuild_index\<close> never returns \<^verbatim>\<open>rr_full_rebuild\<close>. On a well-formed
  sub-source whose view is not paused, a call in which some attached file's
  re-observation reports \<^verbatim>\<open>RR_NEW_ORDER\<close>, \<^verbatim>\<open>RR_INVALID\<close> or
  \<^verbatim>\<open>RR_NEW_LINES\<close> (whatever the timestamp of the first new line) returns
  \<^verbatim>\<open>rr_appended_lines\<close>.
\<close>

theorem rebuild_index_never_full:
  "(\<forall>r s'. rebuild_index env s = Inr (r, s') \<longrightarrow> r \<noteq> rr_full_rebuild) \<and>
   (index_wf env s \<and> \<not> is_paused env \<and>
    (\<exists>ld \<in> set (lss_files s).
       reports env ld \<in> {Some RR_NEW_ORDER, Some RR_INVALID, Some RR_NEW_LINES})
    \<longrightarrow> (\<exists>s'. rebuild_index env s = Inr (rr_appended_lines, s')))"
proof (intro conjI allI impI)
  fix r s' assume "rebuild_index env s = Inr (r, s')"
  from rebuild_index_result [OF this] show "r \<noteq> rr_full_rebuild" by simp
next
  assume a: "index_wf env s \<and> \<not> is_paused env \<and>
    (\<exists>ld \<in> set (lss_files s).
       reports env ld \<in> {Some RR_NEW_ORDER, Some RR_INVALID, Some RR_NEW_LINES})"
  then obtain r s' where r: "rebuild_index env s = Inr (r, s')"
    using rebuild_index_returns by blast
  from rebuild_index_result [OF r] a have "r = rr_appended_lines" by blast
  with r show "\<exists>s'. rebuild_index env s = Inr (rr_appended_lines, s')" by blast
qed

theorem rebuild_index_never_full_witness:
  "index_wf reorder_env indexed_file \<and> \<not> is_paused reorder_env \<and>
   reports reorder_env (lss_files indexed_file ! 0) = Some RR_NEW_ORDER \<and>
   (\<exists>s'. rebuild_index reorder_env indexed_file = Inr (rr_appended_lines, s'))"
proof -
  have a: "index_wf reorder_env indexed_file" by code_simp
  have b: "\<not> is_paused reorder_env" by code_simp
  have c: "reports reorder_env (lss_files indexed_file ! 0) = Some RR_NEW_ORDER" by code_simp
  have d: "lss_files indexed_file ! 0 \<in> set (lss_files indexed_file)"
    by (simp add: indexed_file_def source_of_def)
  from c d have e: "\<exists>ld \<in> set (lss_files indexed_file).
       reports reorder_env ld \<in> {Some RR_NEW_ORDER, Some RR_INVALID, Some RR_NEW_LINES}"
    by (intro bexI [of _ "lss_files indexed_file ! 0"]) simp_all
  from rebuild_index_never_full [of reorder_env indexed_file] a b e
  have "\<exists>s'. rebuild_index reorder_env indexed_file = Inr (rr_appended_lines, s')" by blast
  with a b c show ?thesis by simp
qed

section \<open>The index is only appended to\<close>

text \<open>
  C5. On a well-formed sub-source whose view is not paused, a call in which some file
  reports new lines (or a new order, or is invalid) returns \<^verbatim>\<open>rr_appended_lines\<close>;
  and whenever \<open>rebuild_index\<close> returns \<^verbatim>\<open>rr_appended_lines\<close>, the index it leaves
  starts with the index it was given: no entry is overwritten, moved or removed, and
  the new content lines follow the old ones.
\<close>

theorem rebuild_index_appended_prefix:
  "(index_wf env s \<and> \<not> is_paused env \<and>
    (\<exists>ld \<in> set (lss_files s).
       reports env ld \<in> {Some RR_NEW_ORDER, Some RR_INVALID, Some RR_NEW_LINES})
    \<longrightarrow> (\<exists>s'. rebuild_index env s = Inr (rr_appended_lines, s'))) \<and>
   (rebuild_index env s = Inr (rr_appended_lines, s') \<longrightarrow>
      length (lss_index s) \<le> length (lss_index s') \<and>
      take (length (lss_index s)) (lss_index s') = lss_index s)"
proof (intro conjI impI)
  assume a: "index_wf env s \<and> \<not> is_paused env \<and>
    (\<exists>ld \<in> set (lss_files s).
       reports env ld \<in> {Some RR_NEW_ORDER, Some RR_INVALID, Some RR_NEW_LINES})"
  then obtain r s' where r: "rebuild_index env s = Inr (r, s')"
    using rebuild_index_returns by blast
  from rebuild_index_result [OF r] a have "r = rr_appended_lines" by blast
  with r show "\<exists>s'. rebuild_index env s = Inr (rr_appended_lines, s')" by blast
next
  assume r: "rebuild_index env s = Inr (rr_appended_lines, s')"
  from rebuild_index_appends [OF r]
  show "length (lss_index s) \<le> length (lss_index s')" by auto
  from rebuild_index_appends [OF r]
  show "take (length (lss_index s)) (lss_index s') = lss_index s" by auto
qed

theorem rebuild_index_appended_prefix_witness:
  "index_wf (append_env ''A'' (line_at 3)) two_indexed \<and>
   \<not> is_paused (append_env ''A'' (line_at 3)) \<and>
   reports (append_env ''A'' (line_at 3)) (lss_files two_indexed ! 0) = Some RR_NEW_LINES \<and>
   (\<exists>s'. rebuild_index (append_env ''A'' (line_at 3)) two_indexed = Inr (rr_appended_lines, s') \<and>
        lss_index two_indexed = [content_line 0 0, content_line 1 0] \<and>
        lss_index s' = [content_line 0 0, content_line 1 0, content_line 0 1] \<and>
        take (length (lss_index two_indexed)) (lss_index s') = lss_index two_indexed)"
proof -
  let ?env = "append_env ''A'' (line_at 3)"
  let ?res = "rebuild_index ?env two_indexed"
  have a: "index_wf ?env two_indexed" by code_simp
  have b: "\<not> is_paused ?env" by code_simp
  have c: "reports ?env (lss_files two_indexed ! 0) = Some RR_NEW_LINES" by code_simp
  have d: "lss_files two_indexed ! 0 \<in> set (lss_files two_indexed)"
    by (simp add: two_indexed_def source_of_def)
  from c d have e: "\<exists>ld \<in> set (lss_files two_indexed).
       reports ?env ld \<in> {Some RR_NEW_ORDER, Some RR_INVALID, Some RR_NEW_LINES}"
    by (intro bexI [of _ "lss_files two_indexed ! 0"]) simp_all
  from rebuild_index_appended_prefix [of ?env two_indexed] a b e
  obtain s' where r: "?res = Inr (rr_appended_lines, s')" by blast
  have "index_of ?res = Some [content_line 0 0, content_line 1 0, content_line 0 1]"
    by code_simp
  with r have i: "lss_index s' = [content_line 0 0, content_line 1 0, content_line 0 1]"
    by (simp add: index_of_def)
  have j: "lss_index two_indexed = [content_line 0 0, content_line 1 0]"
    by (simp add: two_indexed_def source_of_def)
  from rebuild_index_appended_prefix [of ?env two_indexed s'] r
  have "take (length (lss_index two_indexed)) (lss_index s') = lss_index two_indexed" by blast
  with a b c r i j show ?thesis by blast
qed

section \<open>The filtered index is increasing and within the index\<close>

text \<open>
  C6. \<open>rebuild_index\<close> returns on a well-formed sub-source, and whenever it returns
  from a state whose filtered index is strictly increasing with every entry below the
  length of the index, it leaves such a state, for an index of at most \<open>2 ^ 32\<close> entries
  (the positions a \<^verbatim>\<open>uint32_t\<close> holds). \<open>text_filters_changed\<close> returns when every
  entry of the index names a line with a mask, and whenever it returns it leaves such a
  state, under the same bound.
\<close>

theorem filtered_index_increasing:
  "(index_wf env s \<longrightarrow> (\<exists>r s'. rebuild_index env s = Inr (r, s'))) \<and>
   (filtered_index_ok s \<and> rebuild_index env s = Inr (r, s') \<and> length (lss_index s') \<le> 2 ^ 32
      \<longrightarrow> filtered_index_ok s') \<and>
   (filters_wf refilter s \<longrightarrow> (\<exists>s'' view'. text_filters_changed refilter s view = Inr (s'', view'))) \<and>
   (text_filters_changed refilter s view = Inr (s'', view') \<and> length (lss_index s'') \<le> 2 ^ 32
      \<longrightarrow> filtered_index_ok s'')"
proof (intro conjI impI)
  assume "index_wf env s"
  then show "\<exists>r s'. rebuild_index env s = Inr (r, s')" by (rule rebuild_index_returns)
next
  assume "filtered_index_ok s \<and> rebuild_index env s = Inr (r, s') \<and> length (lss_index s') \<le> 2 ^ 32"
  then show "filtered_index_ok s'" using rebuild_index_filtered_ok [of env s r s'] by simp
next
  assume "filters_wf refilter s"
  then show "\<exists>s'' view'. text_filters_changed refilter s view = Inr (s'', view')"
    by (rule text_filters_changed_returns)
next
  assume "text_filters_changed refilter s view = Inr (s'', view') \<and> length (lss_index s'') \<le> 2 ^ 32"
  then show "filtered_index_ok s''" using text_filters_changed_filtered_ok [of refilter s view s'' view'] by simp
qed

theorem filtered_index_increasing_witness:
  "index_wf (append_env ''A'' (line_at 3)) two_indexed \<and> filtered_index_ok two_indexed \<and>
   (\<exists>r s'. rebuild_index (append_env ''A'' (line_at 3)) two_indexed = Inr (r, s') \<and>
            lss_filtered_index s' = [0, 1, 2] \<and> filtered_index_ok s') \<and>
   filters_wf (\<lambda>lf lfs. lfs) filtered_source \<and>
   (\<exists>s'' view'. text_filters_changed (\<lambda>lf lfs. lfs) filtered_source None = Inr (s'', view') \<and>
            lss_filtered_index s'' = [0] \<and> filtered_index_ok s'')"
proof -
  let ?env = "append_env ''A'' (line_at 3)"
  let ?res = "rebuild_index ?env two_indexed"
  let ?tfc = "text_filters_changed (\<lambda>lf lfs. lfs) filtered_source None"
  have a: "index_wf ?env two_indexed" by code_simp
  have b: "filtered_index_ok two_indexed" by code_simp
  have c: "filters_wf (\<lambda>lf lfs. lfs) filtered_source" by code_simp
  have "filtered_of ?res = Some [0, 1, 2] \<and>
        index_of ?res = Some [content_line 0 0, content_line 1 0, content_line 0 1]"
    by code_simp
  then obtain r s' where r: "?res = Inr (r, s')" and f: "lss_filtered_index s' = [0, 1, 2]"
    and l: "length (lss_index s') \<le> 2 ^ 32"
    by (cases ?res) (auto simp: filtered_of_def index_of_def)
  have "case ?tfc of Inl e \<Rightarrow> False
        | Inr (s, v) \<Rightarrow> lss_filtered_index s = [0] \<and> length (lss_index s) \<le> 2 ^ 32"
    by code_simp
  then obtain s'' view' where t: "?tfc = Inr (s'', view')" and g: "lss_filtered_index s'' = [0]"
    and m: "length (lss_index s'') \<le> 2 ^ 32"
    by (cases ?tfc) auto
  from filtered_index_increasing [where env = ?env and s = two_indexed and r = r and s' = s']
    b r l
  have o1: "filtered_index_ok s'" by simp
  from filtered_index_increasing [where s = filtered_source
      and refilter = "\<lambda>lf lfs. lfs" and view = None and s'' = s'' and view' = view']
    t m
  have "filtered_index_ok s''" by simp
  note o1 this
  with a b c r f t g show ?thesis by blast
qed

section \<open>Merging two files\<close>

text \<open>
  C3 as stated fails: with the files A (lines at 1, 3, 5) and B (lines at 2, 4, 6) and no
  filter enabled, a single call of \<open>rebuild_index\<close> does not leave the index
  \<open>[A0, B0, A1, B1, A2, B2]\<close>.
\<close>

theorem merge_two_files_counterexample:
  "index_of (rebuild_index quiet_env two_files)
     \<noteq> Some [content_line 0 0, content_line 1 0, content_line 0 1, content_line 1 1,
              content_line 0 2, content_line 1 2]"
  by code_simp

text \<open>
  C3, amended. With the files A (lines at 1, 3, 5) and B (lines at 2, 4, 6) and no filter
  enabled, a single call of \<open>rebuild_index\<close> returns \<^verbatim>\<open>rr_appended_lines\<close> and leaves
  the index \<open>[A0, B0, A1, B1, A2]\<close> and the filtered index \<open>[0, 1, 2, 3, 4]\<close>: the merge
  stops when it has consumed the last line of A. A second call leaves the index
  \<open>[A0, B0, A1, B1, A2, B2]\<close> and the filtered index \<open>[0, 1, 2, 3, 4, 5]\<close>.
\<close>

theorem merge_two_files:
  "index_of (rebuild_index quiet_env two_files)
     = Some [content_line 0 0, content_line 1 0, content_line 0 1, content_line 1 1,
             content_line 0 2] \<and>
   filtered_of (rebuild_index quiet_env two_files) = Some [0, 1, 2, 3, 4] \<and>
   returned (rebuild_index quiet_env two_files) = Some rr_appended_lines \<and>
   index_of (rebuild_again quiet_env (rebuild_index quiet_env two_files))
     = Some [content_line 0 0, content_line 1 0, content_line 0 1, content_line 1 1,
             content_line 0 2, content_line 1 2] \<and>
   filtered_of (rebuild_again quiet_env (rebuild_index quiet_env two_files))
     = Some [0, 1, 2, 3, 4, 5]"
  by code_simp

theorem merge_two_files_witness:
  "map_option length (index_of (rebuild_index quiet_env two_files)) = Some 5 \<and>
   map_option length (index_of (rebuild_again quiet_env (rebuild_index quiet_env two_files))) = Some 6"
  using merge_two_files by simp

section \<open>The steps and the end of the merge\<close>

text \<open>
  C4. A step of the merge takes the head with the least timestamp, appends its content
  line to the index and advances that file's \<^verbatim>\<open>ld_lines_indexed\<close>; it is the last
  step when that line was the last of its file. So when some file has lines to merge,
  the merge ends with exactly one of these files fully consumed; every other file that
  had lines to merge still has lines not indexed, which wait for the next call; and the
  index has grown by as many entries as lines were consumed. With no line to merge, the
  merge changes nothing.
\<close>

theorem merge_loop_step_and_stop:
  "(kmerge_top (merge_heads files) = Some (i, ll) \<longrightarrow>
      i < length files \<and> 0 < lines_left (files ! i) \<and>
      (\<exists>lf. ld_file (files ! i) = Some lf \<and> ll = lf_lines lf ! ld_lines_indexed (files ! i)) \<and>
      (\<forall>(j, lj) \<in> set (merge_heads files). get_timeval ll \<le> get_timeval lj) \<and>
      merge_loop files index =
        (if lines_left (files ! i) = 1
         then (files[i := (files ! i)\<lparr>ld_lines_indexed := ld_lines_indexed (files ! i) + 1\<rparr>],
               index @ [ld_file_index (files ! i) * MAX_LINES_PER_FILE + ld_lines_indexed (files ! i)])
         else merge_loop
                (files[i := (files ! i)\<lparr>ld_lines_indexed := ld_lines_indexed (files ! i) + 1\<rparr>])
                (index @ [ld_file_index (files ! i) * MAX_LINES_PER_FILE + ld_lines_indexed (files ! i)])))
   \<and> (merge_loop files index = (files', index') \<and> (\<exists>ld \<in> set files. 0 < lines_left ld) \<longrightarrow>
        length files' = length files \<and>
        (\<exists>k < length files. 0 < lines_left (files ! k) \<and> lines_left (files' ! k) = 0 \<and>
           (\<forall>j < length files. j \<noteq> k \<and> 0 < lines_left (files ! j) \<longrightarrow> 0 < lines_left (files' ! j))) \<and>
        length index' + sum_list (map lines_left files') =
          length index + sum_list (map lines_left files))
   \<and> ((\<forall>ld \<in> set files. lines_left ld = 0) \<longrightarrow> merge_loop files index = (files, index))"
proof (intro conjI impI)
  assume top: "kmerge_top (merge_heads files) = Some (i, ll)"
  then have mem: "(i, ll) \<in> set (merge_heads files)" by (rule kmerge_top_mem)
  from merge_heads_lines_left [OF mem] show "i < length files" "0 < lines_left (files ! i)"
    by simp_all
  from mem show "\<exists>lf. ld_file (files ! i) = Some lf \<and> ll = lf_lines lf ! ld_lines_indexed (files ! i)"
    by (auto simp: merge_heads_set)
  from top show "\<forall>(j, lj) \<in> set (merge_heads files). get_timeval ll \<le> get_timeval lj"
    by (rule kmerge_top_least)
  from top show "merge_loop files index =
        (if lines_left (files ! i) = 1
         then (files[i := (files ! i)\<lparr>ld_lines_indexed := ld_lines_indexed (files ! i) + 1\<rparr>],
               index @ [ld_file_index (files ! i) * MAX_LINES_PER_FILE + ld_lines_indexed (files ! i)])
         else merge_loop
                (files[i := (files ! i)\<lparr>ld_lines_indexed := ld_lines_indexed (files ! i) + 1\<rparr>])
                (index @ [ld_file_index (files ! i) * MAX_LINES_PER_FILE + ld_lines_indexed (files ! i)]))"
    by (rule merge_loop_unfold)
next
  assume a: "merge_loop files index = (files', index') \<and> (\<exists>ld \<in> set files. 0 < lines_left ld)"
  then have m: "merge_loop files index = (files', index')"
    and e: "\<exists>ld \<in> set files. 0 < lines_left ld" by simp_all
  from merge_loop_stops [OF m e]
  show "length files' = length files"
    and "\<exists>k < length files. 0 < lines_left (files ! k) \<and> lines_left (files' ! k) = 0 \<and>
           (\<forall>j < length files. j \<noteq> k \<and> 0 < lines_left (files ! j) \<longrightarrow> 0 < lines_left (files' ! j))"
    and "length index' + sum_list (map lines_left files') =
          length index + sum_list (map lines_left files)"
    by blast+
next
  assume "\<forall>ld \<in> set files. lines_left ld = 0"
  then show "merge_loop files index = (files, index)" by (rule merge_loop_idle)
qed

theorem merge_loop_step_and_stop_witness:
  "kmerge_top (merge_heads (lss_files two_files)) = Some (0, line_at 1) \<and>
   0 < lines_left (lss_files two_files ! 0) \<and>
   snd (merge_loop (lss_files two_files) []) =
     [content_line 0 0, content_line 1 0, content_line 0 1, content_line 1 1, content_line 0 2] \<and>
   map lines_left (fst (merge_loop (lss_files two_files) [])) = [0, 1]"
proof -
  let ?F = "lss_files two_files"
  have a: "kmerge_top (merge_heads ?F) = Some (0, line_at 1)" by code_simp
  have b: "snd (merge_loop ?F []) =
     [content_line 0 0, content_line 1 0, content_line 0 1, content_line 1 1, content_line 0 2]"
    by code_simp
  have c: "map lines_left (fst (merge_loop ?F [])) = [0, 1]" by code_simp
  from merge_loop_step_and_stop [of ?F 0 "line_at 1" "[]" "fst (merge_loop ?F [])" "snd (merge_loop ?F [])"] a
  have "0 < lines_left (?F ! 0)" by blast
  with a b c show ?thesis by simp
qed

section \<open>The order of the index\<close>




end
